theory Spec2Isabelle
  imports Complex_Main "HOL-Library.AList"
begin

section \<open>Python values used by the bot\<close>

text \<open>
  A Python \<open>str\<close> is a sequence of Unicode code points; a token is a \<open>str\<close>, the
  sentinel is the empty \<open>str\<close>.  A context is a tuple of tokens.  A \<open>dict\<close> keeps its
  keys in insertion order, which \<open>list(chain.keys())\<close> exposes, so it is an association
  list: \<open>map_of\<close> is the lookup, \<open>AList.update\<close> is \<open>d[k] = v\<close> (in place for a key that
  is present, at the end for a new one).
\<close>

type_synonym pystr = "nat list"
type_synonym ctxt = "pystr list"
type_synonym chain = "(ctxt \<times> pystr list) list"

datatype error = IndexError | KeyError | ZeroDivisionError | AttributeError | TypeError
  | EvalError | Unmodelled

abbreviation cp :: "char \<Rightarrow> nat" where
  "cp c \<equiv> of_char c"

definition py :: "string \<Rightarrow> pystr" where
  "py s = map of_char s"

text \<open>
  The two tables of the Unicode database the code reaches through \<open>str.split\<close>,
  \<open>str.strip\<close> and \<open>repr\<close>.  They are parameters: every theorem holds for any tables.
\<close>

record unicode =
  isspace :: "nat \<Rightarrow> bool"
  isprintable :: "nat \<Rightarrow> bool"

text \<open>\<open>s.split()\<close>: the maximal runs of characters that are not whitespace.\<close>

fun split_from :: "(nat \<Rightarrow> bool) \<Rightarrow> pystr \<Rightarrow> pystr \<Rightarrow> pystr list" where
  "split_from ws cur [] = (if cur = [] then [] else [cur])"
| "split_from ws cur (c # cs) =
     (if ws c then (if cur = [] then split_from ws [] cs else cur # split_from ws [] cs)
      else split_from ws (cur @ [c]) cs)"

definition py_split :: "unicode \<Rightarrow> pystr \<Rightarrow> pystr list" where
  "py_split U s = split_from (isspace U) [] s"

text \<open>\<open>sep.join(xs)\<close> and \<open>s.strip()\<close>.\<close>

fun join :: "pystr \<Rightarrow> pystr list \<Rightarrow> pystr" where
  "join sep [] = []"
| "join sep [x] = x"
| "join sep (x # y # ys) = x @ sep @ join sep (y # ys)"

definition strip :: "unicode \<Rightarrow> pystr \<Rightarrow> pystr" where
  "strip U s = rev (dropWhile (isspace U) (rev (dropWhile (isspace U) s)))"

text \<open>
  \<open>random.choice(xs)\<close> raises IndexError on an empty sequence and otherwise returns the
  element at a random index; the draw \<open>r\<close> is the random source's next value.
\<close>

definition choice :: "'a list \<Rightarrow> nat \<Rightarrow> error + 'a" where
  "choice xs r = (if xs = [] then Inl IndexError else Inr (xs ! (r mod length xs)))"

text \<open>\<open>xs[-n:]\<close> for positive \<open>n\<close>: the last \<open>n\<close> elements, all of them when there are fewer.\<close>

definition last_n :: "nat \<Rightarrow> 'a list \<Rightarrow> 'a list" where
  "last_n n xs = drop (length xs - n) xs"

definition MARKOV_ORDER :: nat where
  "MARKOV_ORDER = 2"

section \<open>markov.py\<close>

record model =
  markov_chain :: chain
  total_messages :: int
  generated_messages :: int

text \<open>\<open>text[i:i+MARKOV_ORDER]\<close> as a tuple.\<close>

definition window :: "pystr list \<Rightarrow> nat \<Rightarrow> ctxt" where
  "window text i = take MARKOV_ORDER (drop i text)"

text \<open>The body of the loop of \<open>on_message\<close> (lines 122 to 126).\<close>

definition observe :: "chain \<Rightarrow> ctxt \<Rightarrow> pystr \<Rightarrow> chain" where
  "observe ch key nxt =
     (let ch1 = (if map_of ch key = None then AList.update key [] ch else ch)
      in case map_of ch1 key of
           None \<Rightarrow> ch1
         | Some vs \<Rightarrow> if nxt \<in> set vs then ch1 else AList.update key (vs @ [nxt]) ch1)"

text \<open>The loop \<open>for i in range(len(text) - MARKOV_ORDER)\<close> (lines 121 to 126).\<close>

definition update_chain :: "chain \<Rightarrow> pystr list \<Rightarrow> chain" where
  "update_chain ch text =
     foldl (\<lambda>c i. observe c (window text i) (text ! (i + MARKOV_ORDER))) ch
       [0..<length text - MARKOV_ORDER]"

text \<open>
  \<open>on_message\<close> up to the reply decision (lines 113 to 126): the counter, the split, the
  sentinel and the loop.
\<close>

definition tokenize :: "unicode \<Rightarrow> pystr \<Rightarrow> pystr list" where
  "tokenize U raw = py_split U raw @ [[]]"

definition on_message_learn :: "unicode \<Rightarrow> pystr \<Rightarrow> model \<Rightarrow> model" where
  "on_message_learn U raw m =
     m\<lparr>total_messages := total_messages m + 1,
       markov_chain := update_chain (markov_chain m) (tokenize U raw)\<rparr>"

text \<open>
  The loop of \<open>generate_markov_text\<close> (lines 83 to 88), \<open>n\<close> iterations left; \<open>rng\<close> is
  the stream of draws of the random source.
\<close>

fun markov_loop :: "chain \<Rightarrow> nat \<Rightarrow> (nat \<Rightarrow> nat) \<Rightarrow> pystr list \<Rightarrow> error + pystr list" where
  "markov_loop ch 0 rng text = Inr text"
| "markov_loop ch (Suc n) rng text =
     (case map_of ch (last_n MARKOV_ORDER text) of
        None \<Rightarrow> Inr text
      | Some succs \<Rightarrow>
          (case choice succs (rng 0) of
             Inl e \<Rightarrow> Inl e
           | Inr next_word \<Rightarrow> markov_loop ch n (\<lambda>i. rng (Suc i)) (text @ [next_word])))"

text \<open>
  \<open>generate_markov_text\<close>: the token list before the join, and the returned string.
  \<open>range(max_words)\<close> is empty for a negative \<open>max_words\<close>.
\<close>

definition generate_markov_tokens :: "chain \<Rightarrow> int \<Rightarrow> (nat \<Rightarrow> nat) \<Rightarrow> error + pystr list" where
  "generate_markov_tokens ch max_words rng =
     (case choice (map fst ch) (rng 0) of
        Inl e \<Rightarrow> Inl e
      | Inr current_word \<Rightarrow> markov_loop ch (nat max_words) (\<lambda>i. rng (Suc i)) current_word)"

definition generate_markov_text :: "chain \<Rightarrow> int \<Rightarrow> (nat \<Rightarrow> nat) \<Rightarrow> error + pystr" where
  "generate_markov_text ch max_words rng =
     (case generate_markov_tokens ch max_words rng of
        Inl e \<Rightarrow> Inl e
      | Inr text \<Rightarrow> Inr (join (py '' '') text))"

text \<open>
  \<open>wisdom\<close> (lines 97 to 105): the two sizes and the quotient; the quotient is an exact
  rational here, the two-decimal formatting of the reply is left out.
\<close>

definition wisdom :: "model \<Rightarrow> error + (int \<times> int \<times> nat \<times> nat \<times> rat)" where
  "wisdom m =
     (let total_words = length (markov_chain m);
          chain_size = sum_list (map (\<lambda>values. length values) (map snd (markov_chain m)))
      in if total_words = 0 then Inl ZeroDivisionError
         else Inr (total_messages m, generated_messages m, total_words, chain_size,
                   of_nat chain_size / of_nat total_words))"

section \<open>\<open>str\<close> and \<open>eval\<close> of tuples and lists of strings\<close>

text \<open>
  Both files store a context as \<open>str(key)\<close> and read it back with \<open>eval\<close>; new\_bot.py
  does the same with the successor list.  \<open>str\<close> of a tuple or a list is the \<open>repr\<close> of
  its elements, separated by a comma and a space.  The \<open>repr\<close> of a \<open>str\<close> picks the
  quote (a double quote only when the string has a single quote and no double quote) and
  escapes the quote, the backslash, tab, newline, carriage return, the other ASCII control
  characters and every character beyond ASCII that is not printable.  Code points end at
  0x10FFFF; the model copies a larger number as it is.
\<close>


definition hexdigit :: "nat \<Rightarrow> nat" where
  "hexdigit d = (if d < 10 then 48 + d else 87 + d)"

fun hex :: "nat \<Rightarrow> nat \<Rightarrow> pystr" where
  "hex 0 n = []"
| "hex (Suc w) n = hex w (n div 16) @ [hexdigit (n mod 16)]"

definition repr_quote :: "pystr \<Rightarrow> nat" where
  "repr_quote s = (if cp CHR 0x27 \<in> set s \<and> cp CHR 0x22 \<notin> set s then cp CHR 0x22 else cp CHR 0x27)"

definition repr_char :: "unicode \<Rightarrow> nat \<Rightarrow> nat \<Rightarrow> pystr" where
  "repr_char U q c =
     (if c = q \<or> c = cp CHR 0x5C then [cp CHR 0x5C, c]
      else if c = 9 then [cp CHR 0x5C, cp CHR ''t'']
      else if c = 10 then [cp CHR 0x5C, cp CHR ''n'']
      else if c = 13 then [cp CHR 0x5C, cp CHR ''r'']
      else if c < 32 \<or> c = 127 then [cp CHR 0x5C, cp CHR ''x''] @ hex 2 c
      else if c < 127 then [c]
      else if \<not> isprintable U c \<and> c \<le> 0x10FFFF then
        (if c \<le> 0xFF then [cp CHR 0x5C, cp CHR ''x''] @ hex 2 c
         else if c \<le> 0xFFFF then [cp CHR 0x5C, cp CHR ''u''] @ hex 4 c
         else [cp CHR 0x5C, cp CHR ''U''] @ hex 8 c)
      else [c])"

definition repr :: "unicode \<Rightarrow> pystr \<Rightarrow> pystr" where
  "repr U s = (let q = repr_quote s in q # concat (map (repr_char U q) s) @ [q])"

definition str_tuple :: "unicode \<Rightarrow> pystr list \<Rightarrow> pystr" where
  "str_tuple U xs =
     py ''('' @ join (py '', '') (map (repr U) xs) @ (if length xs = 1 then py '',)'' else py '')'')"

definition str_list :: "unicode \<Rightarrow> pystr list \<Rightarrow> pystr" where
  "str_list U xs = py ''['' @ join (py '', '') (map (repr U) xs) @ py '']''"

text \<open>
  \<open>eval\<close> evaluates any Python expression.  The model covers the displays the code
  writes: a tuple or a list whose elements are string literals, separated by a comma and
  a space.  \<open>None\<close> stands for everything else, an exception or another value.
\<close>

datatype pyval = PyTuple "pystr list" | PyList "pystr list"

definition unhexdigit :: "nat \<Rightarrow> nat option" where
  "unhexdigit c =
     (if 48 \<le> c \<and> c \<le> 57 then Some (c - 48)
      else if 97 \<le> c \<and> c \<le> 102 then Some (c - 87)
      else if 65 \<le> c \<and> c \<le> 70 then Some (c - 55)
      else None)"

fun unhex :: "nat \<Rightarrow> pystr \<Rightarrow> nat option" where
  "unhex acc [] = Some acc"
| "unhex acc (c # cs) =
     (case unhexdigit c of None \<Rightarrow> None | Some d \<Rightarrow> unhex (16 * acc + d) cs)"

text \<open>An escape with exactly \<open>w\<close> hexadecimal digits, for a code point up to 0x10FFFF.\<close>

definition hex_escape :: "nat \<Rightarrow> pystr \<Rightarrow> (nat \<times> pystr) option" where
  "hex_escape w r =
     (if length r < w then None
      else case unhex 0 (take w r) of
             None \<Rightarrow> None
           | Some n \<Rightarrow> if n > 0x10FFFF then None else Some (n, drop w r))"

text \<open>One character of the body of a string literal, with what follows it.\<close>

definition unescape :: "pystr \<Rightarrow> (nat \<times> pystr) option" where
  "unescape s =
     (case s of
        [] \<Rightarrow> None
      | c # cs \<Rightarrow>
          if c = cp CHR 0x5C then
            (case cs of
               [] \<Rightarrow> None
             | e # r \<Rightarrow>
                 if e = cp CHR 0x5C \<or> e = cp CHR 0x27 \<or> e = cp CHR 0x22 then Some (e, r)
                 else if e = cp CHR ''t'' then Some (9, r)
                 else if e = cp CHR ''n'' then Some (10, r)
                 else if e = cp CHR ''r'' then Some (13, r)
                 else if e = cp CHR ''x'' then hex_escape 2 r
                 else if e = cp CHR ''u'' then hex_escape 4 r
                 else if e = cp CHR ''U'' then hex_escape 8 r
                 else None)
          else if c < 32 \<or> c = 127 then None
          else Some (c, cs))"

lemma unescape_shorter: "unescape s = Some (x, r) \<Longrightarrow> length r < length s"
  by (auto simp: unescape_def hex_escape_def split: list.splits if_splits option.splits)

text \<open>The body of a literal opened by the quote \<open>q\<close>, up to the closing quote.\<close>

function lit_body :: "nat \<Rightarrow> pystr \<Rightarrow> (pystr \<times> pystr) option" where
  "lit_body q s =
     (case s of
        [] \<Rightarrow> None
      | c # cs \<Rightarrow>
          if c = q then Some ([], cs)
          else (case unescape s of
                  None \<Rightarrow> None
                | Some (x, r) \<Rightarrow>
                    (case lit_body q r of
                       None \<Rightarrow> None
                     | Some (xs, r') \<Rightarrow> Some (x # xs, r'))))"
  by pat_completeness auto
termination
  by (relation "measure (\<lambda>(q, s). length s)") (auto dest: unescape_shorter)

declare lit_body.simps [simp del]

definition strlit :: "pystr \<Rightarrow> (pystr \<times> pystr) option" where
  "strlit s =
     (case s of
        [] \<Rightarrow> None
      | q # r \<Rightarrow> if q = cp CHR 0x27 \<or> q = cp CHR 0x22 then lit_body q r else None)"

lemma lit_body_shorter: "lit_body q s = Some (x, r) \<Longrightarrow> length r < length s"
proof (induction q s arbitrary: x r rule: lit_body.induct)
  case (1 q s)
  show ?case
  proof (cases s)
    case Nil
    with "1.prems" show ?thesis by (simp add: lit_body.simps)
  next
    case (Cons c cs)
    show ?thesis
    proof (cases "c = q")
      case True
      with Cons "1.prems" show ?thesis by (simp add: lit_body.simps)
    next
      case False
      from "1.prems" Cons False obtain y r1 ys where
        u: "unescape s = Some (y, r1)" and b: "lit_body q r1 = Some (ys, r)"
        by (subst (asm) lit_body.simps) (auto split: option.splits)
      from "1.IH" [OF Cons False u refl b] have "length r < length r1" .
      with unescape_shorter [OF u] show ?thesis by simp
    qed
  qed
qed

lemma strlit_shorter: "strlit s = Some (x, r) \<Longrightarrow> length r < length s"
  by (auto simp: strlit_def split: list.splits if_splits dest: lit_body_shorter)

text \<open>One or more literals separated by a comma and a space, with what follows them.\<close>

function items :: "pystr \<Rightarrow> (pystr list \<times> pystr) option" where
  "items s =
     (case strlit s of
        None \<Rightarrow> None
      | Some (x, r) \<Rightarrow>
          if take 2 r = [cp CHR '','', cp CHR '' ''] then
            (case items (drop 2 r) of
               None \<Rightarrow> None
             | Some (xs, r') \<Rightarrow> Some (x # xs, r'))
          else Some ([x], r))"
  by pat_completeness auto
termination
  by (relation "measure length") (auto dest: strlit_shorter)

declare items.simps [simp del]

definition py_eval :: "pystr \<Rightarrow> pyval option" where
  "py_eval s =
     (case s of
        [] \<Rightarrow> None
      | b # r \<Rightarrow>
          if b = cp CHR ''('' then
            (if r = py '')'' then Some (PyTuple [])
             else case items r of
                    None \<Rightarrow> None
                  | Some (xs, r') \<Rightarrow>
                      if r' = py '',)'' \<and> length xs = 1 then Some (PyTuple xs)
                      else if r' = py '')'' \<and> 2 \<le> length xs then Some (PyTuple xs)
                      else None)
          else if b = cp CHR ''['' then
            (if r = py '']'' then Some (PyList [])
             else case items r of
                    None \<Rightarrow> None
                  | Some (xs, r') \<Rightarrow> if r' = py '']'' then Some (PyList xs) else None)
          else None)"

fun elems :: "pyval \<Rightarrow> pystr list" where
  "elems (PyTuple xs) = xs"
| "elems (PyList xs) = xs"

subsection \<open>Persistence of markov.py\<close>

text \<open>
  \<open>json.dump\<close> and \<open>json.load\<close> are taken at the level of the JSON value a file holds:
  a file is absent or holds a value, and \<open>json.load\<close> returns what \<open>json.dump\<close> wrote.
  A JSON object read back is a \<open>dict\<close>, so a repeated key keeps its first position and
  its last value, which is also what a dict comprehension does (\<open>dict_of\<close>).
\<close>

datatype json = JInt int | JStr pystr | JList "json list" | JObj "(pystr \<times> json) list"

record files =
  chain_file :: "json option"
  stats_file :: "json option"

definition dict_of :: "('k \<times> 'v) list \<Rightarrow> ('k \<times> 'v) list" where
  "dict_of ps = foldl (\<lambda>d (k, v). AList.update k v d) [] ps"

text \<open>\<open>save_markov_chain\<close> (lines 38 to 49).\<close>

definition save_markov_chain :: "unicode \<Rightarrow> model \<Rightarrow> files \<Rightarrow> files" where
  "save_markov_chain U m fs =
     (let serializable_chain =
            dict_of (map (\<lambda>(key, value). (str_tuple U key, value)) (markov_chain m))
      in \<lparr>chain_file =
             Some (JObj (map (\<lambda>(k, value). (k, JList (map JStr value))) serializable_chain)),
           stats_file =
             Some (JObj [(py ''total_msgs'', JInt (total_messages m)),
                         (py ''gen_msgs'', JInt (generated_messages m))])\<rparr>)"

text \<open>
  \<open>load_markov_chain\<close> (lines 53 to 75).  A key that \<open>eval\<close> turns into a list cannot be
  a dict key (TypeError); a value that is not a list of strings, or a file that does not
  hold an object, is outside the types of the model.
\<close>

fun strings_of :: "json \<Rightarrow> pystr list option" where
  "strings_of (JList []) = Some []"
| "strings_of (JList (JStr s # js)) = map_option ((#) s) (strings_of (JList js))"
| "strings_of _ = None"

fun load_items :: "unicode \<Rightarrow> (pystr \<times> json) list \<Rightarrow> chain \<Rightarrow> error + chain" where
  "load_items U [] d = Inr d"
| "load_items U ((key, value) # ps) d =
     (case py_eval key of
        None \<Rightarrow> Inl EvalError
      | Some (PyList xs) \<Rightarrow> Inl TypeError
      | Some (PyTuple k) \<Rightarrow>
          (case strings_of value of
             None \<Rightarrow> Inl Unmodelled
           | Some vs \<Rightarrow> load_items U ps (AList.update k vs d)))"

definition load_chain :: "unicode \<Rightarrow> files \<Rightarrow> error + chain" where
  "load_chain U fs =
     (case chain_file fs of
        None \<Rightarrow> Inr []
      | Some (JObj ps) \<Rightarrow> load_items U (dict_of ps) []
      | Some _ \<Rightarrow> Inl Unmodelled)"

definition load_stats :: "files \<Rightarrow> error + int \<times> int" where
  "load_stats fs =
     (case stats_file fs of
        None \<Rightarrow> Inr (0, 0)
      | Some (JObj ps) \<Rightarrow>
          (case map_of (dict_of ps) (py ''total_msgs'') of
             None \<Rightarrow> Inl KeyError
           | Some (JInt t) \<Rightarrow>
               (case map_of (dict_of ps) (py ''gen_msgs'') of
                  None \<Rightarrow> Inl KeyError
                | Some (JInt g) \<Rightarrow> Inr (t, g)
                | Some _ \<Rightarrow> Inl Unmodelled)
           | Some _ \<Rightarrow> Inl Unmodelled)
      | Some _ \<Rightarrow> Inl Unmodelled)"

definition load_markov_chain :: "unicode \<Rightarrow> files \<Rightarrow> error + model" where
  "load_markov_chain U fs =
     (case load_chain U fs of
        Inl e \<Rightarrow> Inl e
      | Inr ch \<Rightarrow>
          (case load_stats fs of
             Inl e \<Rightarrow> Inl e
           | Inr (t, g) \<Rightarrow>
               Inr \<lparr>markov_chain = ch, total_messages = t, generated_messages = g\<rparr>))"

section \<open>new\_bot.py\<close>

text \<open>
  The database: the table \<open>chain\<close> (primary key \<open>key\<close>, column \<open>next_words\<close>, both
  strings) and the table \<open>stats\<close> (primary key \<open>key\<close>, an integer \<open>value\<close>), each a list
  of rows in insertion order.  A session that raises is rolled back, so a function that
  fails leaves the table as it was: it returns the error alone.
\<close>

type_synonym chain_table = "(pystr \<times> pystr) list"
type_synonym stats_table = "(pystr \<times> int) list"

record database =
  chain_rows :: chain_table
  stat_rows :: stats_table

text \<open>\<open>update_stat\<close> (lines 73 to 81): an UPDATE of the rows whose key matches.\<close>

definition update_stat :: "pystr \<Rightarrow> int \<Rightarrow> stats_table \<Rightarrow> stats_table" where
  "update_stat key v rows = map (\<lambda>(k, old). if k = key then (k, v) else (k, old)) rows"

text \<open>\<open>get_stat\<close> (lines 83 to 86): the value of the row, 0 when there is none.\<close>

definition get_stat :: "pystr \<Rightarrow> stats_table \<Rightarrow> int" where
  "get_stat key rows = (case map_of rows key of None \<Rightarrow> 0 | Some v \<Rightarrow> v)"

text \<open>
  The body of the loop of \<open>build_markov_chain\<close> (lines 92 to 104).  \<open>append\<close> exists on
  a list only.
\<close>

definition build_step :: "unicode \<Rightarrow> chain_table \<Rightarrow> ctxt \<Rightarrow> pystr \<Rightarrow> error + chain_table" where
  "build_step U rows key next_word =
     (let key_str = str_tuple U key
      in case map_of rows key_str of
           Some chain_entry \<Rightarrow>
             (case py_eval chain_entry of
                None \<Rightarrow> Inl EvalError
              | Some (PyTuple next_words) \<Rightarrow>
                  if next_word \<notin> set next_words then Inl AttributeError else Inr rows
              | Some (PyList next_words) \<Rightarrow>
                  if next_word \<notin> set next_words
                  then Inr (AList.update key_str (str_list U (next_words @ [next_word])) rows)
                  else Inr rows)
         | None \<Rightarrow> Inr (AList.update key_str (str_list U [next_word]) rows))"

fun build_loop :: "unicode \<Rightarrow> pystr list \<Rightarrow> nat list \<Rightarrow> chain_table \<Rightarrow> error + chain_table" where
  "build_loop U words [] rows = Inr rows"
| "build_loop U words (i # is) rows =
     (case build_step U rows (window words i) (words ! (i + MARKOV_ORDER)) of
        Inl e \<Rightarrow> Inl e
      | Inr rows' \<Rightarrow> build_loop U words is rows')"

text \<open>\<open>build_markov_chain\<close> (lines 88 to 104).\<close>

definition build_markov_chain :: "unicode \<Rightarrow> pystr list \<Rightarrow> chain_table \<Rightarrow> error + chain_table" where
  "build_markov_chain U words0 rows =
     (let words = words0 @ [[]]
      in build_loop U words [0..<length words - MARKOV_ORDER] rows)"

text \<open>
  \<open>get_random_key\<close> (lines 106 to 112): the key of a random row; the fixed pair when
  there is no row, or when the key is the empty string.
\<close>

definition get_random_key :: "unicode \<Rightarrow> chain_table \<Rightarrow> nat \<Rightarrow> error + pyval" where
  "get_random_key U rows r =
     (if rows = [] then Inr (PyTuple [py ''start'', py ''here''])
      else let key = fst (rows ! (r mod length rows))
           in if key = [] then Inr (PyTuple [py ''start'', py ''here''])
              else case py_eval key of None \<Rightarrow> Inl EvalError | Some v \<Rightarrow> Inr v)"

text \<open>The loop of \<open>generate_text\<close> (lines 119 to 131), \<open>n\<close> iterations left.\<close>

fun text_loop :: "unicode \<Rightarrow> chain_table \<Rightarrow> nat \<Rightarrow> (nat \<Rightarrow> nat) \<Rightarrow> pystr list \<Rightarrow> error + pystr list" where
  "text_loop U rows 0 rng result = Inr result"
| "text_loop U rows (Suc n) rng result =
     (case map_of rows (str_tuple U (last_n MARKOV_ORDER result)) of
        None \<Rightarrow> Inr result
      | Some chain_entry \<Rightarrow>
          if chain_entry = [] then Inr result
          else (case py_eval chain_entry of
                  None \<Rightarrow> Inl EvalError
                | Some next_words \<Rightarrow>
                    (case choice (elems next_words) (rng 0) of
                       Inl e \<Rightarrow> Inl e
                     | Inr next_word \<Rightarrow>
                         if next_word = [] then Inr (result @ [next_word])
                         else text_loop U rows n (\<lambda>i. rng (Suc i)) (result @ [next_word]))))"

text \<open>\<open>generate_text\<close> (lines 114 to 133): the token list, and the returned string.\<close>

definition generate_tokens :: "unicode \<Rightarrow> chain_table \<Rightarrow> int \<Rightarrow> (nat \<Rightarrow> nat) \<Rightarrow> error + pystr list" where
  "generate_tokens U rows max_words rng =
     (case get_random_key U rows (rng 0) of
        Inl e \<Rightarrow> Inl e
      | Inr current_key \<Rightarrow>
          text_loop U rows (nat max_words) (\<lambda>i. rng (Suc i)) (elems current_key))"

definition generate_text :: "unicode \<Rightarrow> chain_table \<Rightarrow> int \<Rightarrow> (nat \<Rightarrow> nat) \<Rightarrow> error + pystr" where
  "generate_text U rows max_words rng =
     (case generate_tokens U rows max_words rng of
        Inl e \<Rightarrow> Inl e
      | Inr result \<Rightarrow> Inr (strip U (join (py '' '') result)))"

text \<open>
  \<open>wisdom_command\<close> (lines 137 to 155).  The size is computed in SQL: for every row the
  length of \<open>next_words\<close> minus its length without commas, plus one; the sum over no rows
  is NULL, which the reply prints as 0.  The quotient is an exact rational.
\<close>

definition row_size :: "pystr \<Rightarrow> nat" where
  "row_size next_words =
     length next_words - length (filter (\<lambda>c. c \<noteq> cp CHR '','') next_words) + 1"

definition wisdom_command :: "database \<Rightarrow> int \<times> int \<times> nat \<times> nat \<times> rat" where
  "wisdom_command db =
     (let total_messages = get_stat (py ''total_messages'') (stat_rows db);
          generated_messages = get_stat (py ''generated_messages'') (stat_rows db);
          chain_count = length (chain_rows db);
          chain_size = sum_list (map (\<lambda>(k, next_words). row_size next_words) (chain_rows db));
          variability = (if chain_count > 0 then of_nat chain_size / of_nat chain_count else 0)
      in (total_messages, generated_messages, chain_count, chain_size, variability))"

text \<open>
  \<open>handle_message\<close> (lines 160 to 185).  \<open>reply\<close> is the outcome of the trigger test of
  lines 169 to 176.  Each step commits its own session, so the database keeps what the
  steps before a failure wrote.  The result is the database afterwards and the reply
  (\<open>None\<close> when the handler returns without one) or the exception.
\<close>

definition handle_message ::
    "unicode \<Rightarrow> pystr \<Rightarrow> bool \<Rightarrow> (nat \<Rightarrow> nat) \<Rightarrow> database \<Rightarrow> database \<times> (error + pystr option)" where
  "handle_message U text reply rng db =
     (let total = get_stat (py ''total_messages'') (stat_rows db) + 1;
          db1 = db\<lparr>stat_rows := update_stat (py ''total_messages'') total (stat_rows db)\<rparr>
      in case build_markov_chain U (py_split U text) (chain_rows db1) of
           Inl e \<Rightarrow> (db1, Inl e)
         | Inr rows \<Rightarrow>
             (let db2 = db1\<lparr>chain_rows := rows\<rparr>
              in if \<not> reply then (db2, Inr None)
                 else case generate_text U (chain_rows db2) 100 rng of
                        Inl e \<Rightarrow> (db2, Inl e)
                      | Inr generated_text \<Rightarrow>
                          (let generated = get_stat (py ''generated_messages'') (stat_rows db2) + 1
                           in (db2\<lparr>stat_rows :=
                                     update_stat (py ''generated_messages'') generated (stat_rows db2)\<rparr>,
                               Inr (Some generated_text)))))"

text \<open>
  \<open>on_message\<close> of markov.py as a whole (lines 113 to 138), with the same \<open>reply\<close>.
  The globals keep what was assigned before an exception.
\<close>

definition on_message ::
    "unicode \<Rightarrow> pystr \<Rightarrow> bool \<Rightarrow> (nat \<Rightarrow> nat) \<Rightarrow> model \<times> files \<Rightarrow> (model \<times> files) \<times> (error + pystr option)" where
  "on_message U text reply rng st =
     (let m1 = on_message_learn U text (fst st)
      in if \<not> reply then ((m1, snd st), Inr None)
         else let m2 = m1\<lparr>generated_messages := generated_messages m1 + 1\<rparr>
              in case generate_markov_text (markov_chain m2) 100 rng of
                   Inl e \<Rightarrow> ((m2, snd st), Inl e)
                 | Inr generated_text \<Rightarrow>
                     ((m2, save_markov_chain U m2 (snd st)), Inr (Some generated_text)))"

text \<open>
  The database after \<open>init_db\<close> on a new file (lines 68 to 71): \<open>create_all\<close> creates
  the two tables, with no row.  No statement of the file inserts a row into \<open>stats\<close>.
\<close>

definition init_db :: database where
  "init_db = \<lparr>chain_rows = [], stat_rows = []\<rparr>"

section \<open>The two stores compared\<close>

text \<open>
  The table of new\_bot.py that holds a dict of markov.py: every key and every successor
  list as its \<open>str\<close>.
\<close>

definition chain_table_of :: "unicode \<Rightarrow> chain \<Rightarrow> chain_table" where
  "chain_table_of U ch = map (\<lambda>(key, next_words). (str_tuple U key, str_list U next_words)) ch"

text \<open>
  The tables of the Unicode database on ASCII, for evaluation at concrete inputs: the
  whitespace of \<open>str.isspace\<close> below 128 is the space, 0x09 to 0x0D and 0x1C to 0x1F; the
  printable characters below 128 are 0x20 to 0x7E.
\<close>

definition ascii :: unicode where
  "ascii = \<lparr>isspace = (\<lambda>c. c = 32 \<or> (9 \<le> c \<and> c \<le> 13) \<or> (28 \<le> c \<and> c \<le> 31)),
            isprintable = (\<lambda>c. 32 \<le> c \<and> c < 127)\<rparr>"

section \<open>Observations, learned stores\<close>

text \<open>A token is in the successor list the dict stores for a key.\<close>

definition successor_of :: "chain \<Rightarrow> ctxt \<Rightarrow> pystr \<Rightarrow> bool" where
  "successor_of ch key t = (case map_of ch key of None \<Rightarrow> False | Some succs \<Rightarrow> t \<in> set succs)"

text \<open>A token is in the successor list the table stores for a key: the row of \<open>str(key)\<close>, its
  \<open>next_words\<close> read back with \<open>eval\<close>.\<close>

definition row_successor_of :: "unicode \<Rightarrow> chain_table \<Rightarrow> ctxt \<Rightarrow> pystr \<Rightarrow> bool" where
  "row_successor_of U rows key t =
     (case map_of rows (str_tuple U key) of
        None \<Rightarrow> False
      | Some chain_entry \<Rightarrow>
          (case py_eval chain_entry of None \<Rightarrow> False | Some v \<Rightarrow> t \<in> set (elems v)))"

text \<open>The observations of a tokenized message, in order: every window of two tokens that has a
  token after it, with that token.\<close>

fun observations :: "pystr list \<Rightarrow> (ctxt \<times> pystr) list" where
  "observations (a # b # c # rest) = ([a, b], c) # observations (b # c # rest)"
| "observations toks = []"

text \<open>One \<open>build_step\<close> for each observation of a list, in order, stopping at the first error.\<close>

fun build_all :: "unicode \<Rightarrow> (ctxt \<times> pystr) list \<Rightarrow> chain_table \<Rightarrow> error + chain_table" where
  "build_all U [] rows = Inr rows"
| "build_all U ((key, next_word) # obs) rows =
     (case build_step U rows key next_word of
        Inl e \<Rightarrow> Inl e
      | Inr rows' \<Rightarrow> build_all U obs rows')"

text \<open>The dict of markov.py after the messages \<open>msgs\<close>, starting from the empty dict.\<close>

definition learned :: "unicode \<Rightarrow> pystr list \<Rightarrow> chain" where
  "learned U msgs = foldl (\<lambda>ch raw. update_chain ch (tokenize U raw)) [] msgs"

text \<open>The table of new\_bot.py after \<open>build_markov_chain\<close> on each of the messages in turn.\<close>

fun build_messages :: "unicode \<Rightarrow> pystr list \<Rightarrow> chain_table \<Rightarrow> error + chain_table" where
  "build_messages U [] rows = Inr rows"
| "build_messages U (raw # msgs) rows =
     (case build_markov_chain U (py_split U raw) rows of
        Inl e \<Rightarrow> Inl e
      | Inr rows' \<Rightarrow> build_messages U msgs rows')"

text \<open>The keys of a dict.\<close>

definition keys :: "chain \<Rightarrow> ctxt set" where
  "keys ch = fst ` set ch"

text \<open>
  The \<open>add_observation\<close> of the specification (4.2), in its words: it inserts the next
  token into the successor list of the context if it is not there yet, creating the entry
  when the context is new, and does nothing when the token is there.
\<close>

definition add_observation :: "chain \<Rightarrow> ctxt \<Rightarrow> pystr \<Rightarrow> chain" where
  "add_observation ch C t =
     (case map_of ch C of
        None \<Rightarrow> ch @ [(C, [t])]
      | Some succs \<Rightarrow> if t \<in> set succs then ch else AList.update C (succs @ [t]) ch)"

section \<open>\<open>eval\<close> inverts \<open>str\<close>\<close>

lemma unhex_append:
  "unhex acc (xs @ ys) = (case unhex acc xs of None \<Rightarrow> None | Some a \<Rightarrow> unhex a ys)"
  by (induction xs arbitrary: acc) (auto split: option.splits)

lemma unhexdigit_hexdigit: "d < 16 \<Longrightarrow> unhexdigit (hexdigit d) = Some d"
  by (auto simp: unhexdigit_def hexdigit_def)

lemma length_hex [simp]: "length (hex w n) = w"
  by (induction w arbitrary: n) auto

lemma unhex_hex: "unhex acc (hex w n) = Some (acc * 16 ^ w + n mod 16 ^ w)"
proof (induction w arbitrary: n acc)
  case 0
  show ?case by simp
next
  case (Suc w)
  have "n mod (16 * 16 ^ w) = 16 * ((n div 16) mod 16 ^ w) + n mod 16"
    by (simp add: mod_mult2_eq)
  then show ?case
    by (simp add: unhex_append Suc unhexdigit_hexdigit algebra_simps)
qed

lemma hex_escape_hex:
  "n < 16 ^ w \<Longrightarrow> n \<le> 0x10FFFF \<Longrightarrow> hex_escape w (hex w n @ rest) = Some (n, rest)"
  by (simp add: hex_escape_def unhex_hex)

lemma hex_escape_2: "n \<le> 255 \<Longrightarrow> hex_escape 2 (hex 2 n @ rest) = Some (n, rest)"
  by (rule hex_escape_hex) auto

lemma hex_escape_4: "n \<le> 65535 \<Longrightarrow> hex_escape 4 (hex 4 n @ rest) = Some (n, rest)"
  by (rule hex_escape_hex) auto

lemma hex_escape_8: "n \<le> 0x10FFFF \<Longrightarrow> hex_escape 8 (hex 8 n @ rest) = Some (n, rest)"
  by (rule hex_escape_hex) auto

lemma unescape_repr_char:
  assumes "q = cp CHR 0x27 \<or> q = cp CHR 0x22"
  shows "unescape (repr_char U q c @ rest) = Some (c, rest)"
  using assms
  by (auto simp add: repr_char_def unescape_def hex_escape_2 hex_escape_4 hex_escape_8
      simp del: hex.simps)

lemma repr_char_head:
  assumes "q = cp CHR 0x27 \<or> q = cp CHR 0x22"
  shows "\<exists>h t. repr_char U q c = h # t \<and> h \<noteq> q"
  using assms by (auto simp: repr_char_def)

lemma lit_body_repr:
  assumes "q = cp CHR 0x27 \<or> q = cp CHR 0x22"
  shows "lit_body q (concat (map (repr_char U q) s) @ q # rest) = Some (s, rest)"
proof (induction s)
  case Nil
  show ?case by (simp add: lit_body.simps)
next
  case (Cons c s)
  obtain h t where ht: "repr_char U q c = h # t" "h \<noteq> q"
    using repr_char_head [OF assms] by blast
  have "unescape (repr_char U q c @ (concat (map (repr_char U q) s) @ q # rest))
          = Some (c, concat (map (repr_char U q) s) @ q # rest)"
    by (rule unescape_repr_char [OF assms])
  then show ?case
    using ht Cons by (subst lit_body.simps) (simp)
qed

lemma strlit_repr: "strlit (repr U s @ rest) = Some (s, rest)"
  by (simp add: strlit_def repr_def Let_def repr_quote_def lit_body_repr)

lemma items_join:
  "xs \<noteq> [] \<Longrightarrow> take 2 rest \<noteq> [cp CHR '','', cp CHR '' ''] \<Longrightarrow>
   items (join (py '', '') (map (repr U) xs) @ rest) = Some (xs, rest)"
proof (induction xs rule: induct_list012)
  case 1
  then show ?case by simp
next
  case (2 x)
  then show ?case by (subst items.simps) (simp add: strlit_repr)
next
  case (3 x y zs)
  then show ?case by (subst items.simps) (simp add: strlit_repr py_def)
qed

lemma py_eval_str_tuple: "py_eval (str_tuple U xs) = Some (PyTuple xs)"
proof (cases xs)
  case Nil
  then show ?thesis by (simp add: py_eval_def str_tuple_def py_def)
next
  case (Cons x ys)
  note c1 = this
  show ?thesis
  proof (cases ys)
    case Nil
    have "items (join (py '', '') (map (repr U) [x]) @ py '',)'') = Some ([x], py '',)'')"
      by (rule items_join) (simp_all add: py_def)
    moreover have "\<exists>h t. repr U x = h # t \<and> h \<noteq> cp CHR '')''"
      by (simp add: repr_def Let_def repr_quote_def)
    ultimately show ?thesis using c1 Nil
      by (auto simp add: py_eval_def str_tuple_def py_def)
  next
    case (Cons y zs)
    have "items (join (py '', '') (map (repr U) xs) @ py '')'') = Some (xs, py '')'')"
      by (rule items_join) (simp_all add: py_def c1)
    moreover have "\<exists>h t. repr U x = h # t \<and> h \<noteq> cp CHR '')''"
      by (simp add: repr_def Let_def repr_quote_def)
    ultimately show ?thesis using c1 Cons
      by (auto simp add: py_eval_def str_tuple_def py_def)
  qed
qed

lemma py_eval_str_list: "py_eval (str_list U xs) = Some (PyList xs)"
proof (cases xs)
  case Nil
  then show ?thesis by (simp add: py_eval_def str_list_def py_def)
next
  case (Cons x ys)
  have "items (join (py '', '') (map (repr U) xs) @ py '']'') = Some (xs, py '']'')"
    by (rule items_join) (simp_all add: py_def Cons)
  moreover have "\<exists>h t. repr U x = h # t \<and> h \<noteq> cp CHR '']''"
    by (simp add: repr_def Let_def repr_quote_def)
  ultimately show ?thesis using Cons
    by (cases ys) (auto simp add: py_eval_def str_list_def py_def)
qed

section \<open>The table of new\_bot.py follows the dict of markov.py\<close>

lemma str_tuple_inj: "str_tuple U a = str_tuple U b \<Longrightarrow> a = b"
proof -
  assume "str_tuple U a = str_tuple U b"
  then have "py_eval (str_tuple U a) = py_eval (str_tuple U b)" by simp
  then show "a = b" by (simp add: py_eval_str_tuple)
qed

lemma map_of_chain_table_of:
  "map_of (chain_table_of U ch) (str_tuple U k) = map_option (str_list U) (map_of ch k)"
  by (induction ch) (auto simp: chain_table_of_def dest: str_tuple_inj)

lemma update_chain_table_of:
  "AList.update (str_tuple U k) (str_list U v) (chain_table_of U ch)
     = chain_table_of U (AList.update k v ch)"
  by (induction ch) (auto simp: chain_table_of_def dest: str_tuple_inj)

lemma observe_twice: "observe (observe ch C t) C t = observe ch C t"
  by (auto simp: observe_def Let_def update_conv' split: option.splits)

lemma build_step_refines:
  "build_step U (chain_table_of U ch) C t = Inr (chain_table_of U (observe ch C t))"
  by (auto simp: build_step_def observe_def Let_def map_of_chain_table_of py_eval_str_list
      update_chain_table_of update_conv' split: option.splits)

lemma build_step_twice:
  "build_step U rows C t = Inr rows' \<Longrightarrow> build_step U rows' C t = Inr rows'"
  by (auto simp: build_step_def Let_def update_conv' py_eval_str_list
      split: option.splits pyval.splits if_splits)

section \<open>Generation\<close>

lemma markov_loop_length:
  "markov_loop ch n rng toks = Inr out \<Longrightarrow> length out \<le> length toks + n"
proof (induction n arbitrary: rng toks)
  case 0
  then show ?case by simp
next
  case (Suc n)
  then show ?case
    by (fastforce split: option.splits sum.splits)
qed

lemma text_loop_length:
  "text_loop U rows n rng toks = Inr out \<Longrightarrow> length out \<le> length toks + n"
proof (induction n arbitrary: rng toks)
  case 0
  then show ?case by simp
next
  case (Suc n)
  then show ?case
    by (fastforce split: option.splits sum.splits if_splits)
qed


section \<open>Learning and generation\<close>

lemma choice_in_set: "choice xs r = Inr x \<Longrightarrow> x \<in> set xs"
  by (auto simp: choice_def split: if_splits)

lemma choice_nonempty: "xs \<noteq> [] \<Longrightarrow> \<exists>x. choice xs r = Inr x"
  by (simp add: choice_def)

lemma markov_loop_valid:
  "markov_loop ch n rng toks = Inr out \<Longrightarrow>
     length toks \<le> length out \<and> take (length toks) out = toks \<and>
     (\<forall>j. length toks \<le> j \<and> j < length out \<longrightarrow>
          successor_of ch (last_n MARKOV_ORDER (take j out)) (out ! j))"
proof (induction n arbitrary: rng toks)
  case 0
  then show ?case by auto
next
  case (Suc n)
  show ?case
  proof (cases "map_of ch (last_n MARKOV_ORDER toks)")
    case None
    with Suc.prems show ?thesis by auto
  next
    case (Some succs)
    with Suc.prems obtain w where
      w: "choice succs (rng 0) = Inr w" and
      rec: "markov_loop ch n (\<lambda>i. rng (Suc i)) (toks @ [w]) = Inr out"
      by (auto split: sum.splits)
    from Suc.IH [OF rec] have
      len: "length toks + 1 \<le> length out" and
      pre: "take (length toks + 1) out = toks @ [w]" and
      ih: "\<And>j. length toks + 1 \<le> j \<Longrightarrow> j < length out \<Longrightarrow>
             successor_of ch (last_n MARKOV_ORDER (take j out)) (out ! j)"
      by auto
    from pre have pre': "take (length toks) out = toks"
      by (metis append_eq_conv_conj length_take min.absorb2 nat_le_linear take_all_iff take_take le_add1)
    from pre len have at: "out ! length toks = w"
      by (metis Suc_eq_plus1 lessI nth_append_length nth_take)
    have here: "successor_of ch (last_n MARKOV_ORDER (take (length toks) out)) (out ! length toks)"
      using Some choice_in_set [OF w] by (simp add: successor_of_def pre' at)
    have "successor_of ch (last_n MARKOV_ORDER (take j out)) (out ! j)"
      if "length toks \<le> j" "j < length out" for j
    proof (cases "j = length toks")
      case True
      with here show ?thesis by simp
    next
      case False
      with that ih show ?thesis by simp
    qed
    with len pre' show ?thesis by simp
  qed
qed

lemma text_loop_valid:
  "text_loop U rows n rng toks = Inr out \<Longrightarrow>
     length toks \<le> length out \<and> take (length toks) out = toks \<and>
     (\<forall>j. length toks \<le> j \<and> j < length out \<longrightarrow>
          row_successor_of U rows (last_n MARKOV_ORDER (take j out)) (out ! j))"
proof (induction n arbitrary: rng toks)
  case 0
  then show ?case by auto
next
  case (Suc n)
  show ?case
  proof (cases "map_of rows (str_tuple U (last_n MARKOV_ORDER toks))")
    case None
    with Suc.prems show ?thesis by auto
  next
    case (Some e)
    show ?thesis
    proof (cases "e = []")
      case True
      with Some Suc.prems show ?thesis by auto
    next
      case False
      with Some Suc.prems obtain v w where
        v: "py_eval e = Some v" and
        w: "choice (elems v) (rng 0) = Inr w" and
        rec: "(if w = [] then Inr (toks @ [w])
               else text_loop U rows n (\<lambda>i. rng (Suc i)) (toks @ [w])) = Inr out"
        by (auto split: sum.splits option.splits)
      have here: "row_successor_of U rows (last_n MARKOV_ORDER toks) w"
        using Some v choice_in_set [OF w] by (simp add: row_successor_of_def)
      have
        len: "length toks + 1 \<le> length out" and
        pre: "take (length toks + 1) out = toks @ [w]" and
        ih: "\<And>j. length toks + 1 \<le> j \<Longrightarrow> j < length out \<Longrightarrow>
               row_successor_of U rows (last_n MARKOV_ORDER (take j out)) (out ! j)"
      proof -
        show "length toks + 1 \<le> length out"
          using rec Suc.IH [of "\<lambda>i. rng (Suc i)" "toks @ [w]"] by (auto split: if_splits)
        show "take (length toks + 1) out = toks @ [w]"
          using rec Suc.IH [of "\<lambda>i. rng (Suc i)" "toks @ [w]"] by (auto split: if_splits)
        show "\<And>j. length toks + 1 \<le> j \<Longrightarrow> j < length out \<Longrightarrow>
               row_successor_of U rows (last_n MARKOV_ORDER (take j out)) (out ! j)"
          using rec Suc.IH [of "\<lambda>i. rng (Suc i)" "toks @ [w]"] by (auto split: if_splits)
      qed
      from pre have pre': "take (length toks) out = toks"
        by (metis append_eq_conv_conj length_take min.absorb2 nat_le_linear take_all_iff take_take le_add1)
      from pre len have at: "out ! length toks = w"
        by (metis Suc_eq_plus1 lessI nth_append_length nth_take)
      have "row_successor_of U rows (last_n MARKOV_ORDER (take j out)) (out ! j)"
        if "length toks \<le> j" "j < length out" for j
      proof (cases "j = length toks")
        case True
        with here pre' at show ?thesis by simp
      next
        case False
        with that ih show ?thesis by simp
      qed
      with len pre' show ?thesis by simp
    qed
  qed
qed

lemma observations_index:
  "map (\<lambda>i. (window toks i, toks ! (i + MARKOV_ORDER))) [0..<length toks - MARKOV_ORDER]
     = observations toks"
proof (induction toks rule: observations.induct)
  case (1 a b c rest)
  have "[0..<Suc (length rest)] = 0 # map Suc [0..<length rest]"
    by (simp add: upt_conv_Cons map_Suc_upt del: upt_Suc)
  moreover have "window (a # b # c # rest) (Suc i) = window (b # c # rest) i" for i
    by (simp add: window_def)
  moreover have "window (a # b # c # rest) 0 = [a, b]"
    by (simp add: window_def MARKOV_ORDER_def)
  ultimately show ?case
    using 1 by (simp add: MARKOV_ORDER_def comp_def del: upt_Suc)
qed (simp_all add: MARKOV_ORDER_def)

lemma length_observations: "length (observations toks) = length toks - MARKOV_ORDER"
  using arg_cong [OF observations_index [of toks], of length] by simp

lemma nth_observations:
  "i < length toks - MARKOV_ORDER \<Longrightarrow>
   observations toks ! i = (take MARKOV_ORDER (drop i toks), toks ! (i + MARKOV_ORDER))"
  using arg_cong [OF observations_index [of toks], of "\<lambda>xs. xs ! i"]
  by (simp add: window_def)

lemma update_chain_observations:
  "update_chain ch toks = foldl (\<lambda>c (key, nxt). observe c key nxt) ch (observations toks)"
  unfolding update_chain_def observations_index [symmetric]
  by (simp add: foldl_map)

lemma build_loop_build_all:
  "build_loop U words is rows
     = build_all U (map (\<lambda>i. (window words i, words ! (i + MARKOV_ORDER))) is) rows"
  by (induction "is" arbitrary: rows) (auto split: sum.splits)

lemma build_markov_chain_observations:
  "build_markov_chain U words rows = build_all U (observations (words @ [[]])) rows"
  by (simp add: build_markov_chain_def Let_def build_loop_build_all observations_index
      del: upt_Suc)

lemma build_all_refines:
  "build_all U obs (chain_table_of U ch)
     = Inr (chain_table_of U (foldl (\<lambda>c (key, nxt). observe c key nxt) ch obs))"
  by (induction obs arbitrary: ch) (auto simp: build_step_refines)

lemma build_markov_chain_refines:
  "build_markov_chain U words (chain_table_of U ch)
     = Inr (chain_table_of U (update_chain ch (words @ [[]])))"
  by (simp add: build_markov_chain_observations build_all_refines update_chain_observations)

lemma build_messages_refines:
  "build_messages U msgs (chain_table_of U ch)
     = Inr (chain_table_of U (foldl (\<lambda>ch raw. update_chain ch (tokenize U raw)) ch msgs))"
  by (induction msgs arbitrary: ch) (auto simp: build_markov_chain_refines tokenize_def)

lemma build_messages_learned:
  "build_messages U msgs [] = Inr (chain_table_of U (learned U msgs))"
  using build_messages_refines [of U msgs "[]"] by (simp add: learned_def chain_table_of_def)

lemma keys_map_of: "k \<in> keys ch \<longleftrightarrow> map_of ch k \<noteq> None"
  by (simp add: keys_def map_of_eq_None_iff)

lemma successor_of_observe:
  "successor_of (observe ch key nxt) k t \<longleftrightarrow> successor_of ch k t \<or> (k = key \<and> t = nxt)"
  by (auto simp: successor_of_def observe_def Let_def update_conv' split: option.splits)

lemma keys_observe: "keys (observe ch key nxt) = insert key (keys ch)"
  by (auto simp: keys_map_of observe_def Let_def update_conv' split: option.splits if_splits)

lemma distinct_observe: "distinct (map fst ch) \<Longrightarrow> distinct (map fst (observe ch key nxt))"
  by (auto simp: observe_def Let_def distinct_update split: option.splits)

lemma nonempty_observe:
  assumes "\<forall>k vs. map_of ch k = Some vs \<longrightarrow> vs \<noteq> []"
  shows "\<forall>k vs. map_of (observe ch key nxt) k = Some vs \<longrightarrow> vs \<noteq> []"
  using assms
  by (auto simp: observe_def Let_def update_conv' split: option.splits if_splits)

lemma successor_of_observe_all:
  "successor_of (foldl (\<lambda>c (key, nxt). observe c key nxt) ch obs) k t
     \<longleftrightarrow> successor_of ch k t \<or> (k, t) \<in> set obs"
proof (induction obs arbitrary: ch)
  case Nil
  show ?case by simp
next
  case (Cons o1 obs)
  obtain key nxt where o1: "o1 = (key, nxt)" by (cases o1)
  have "successor_of (foldl (\<lambda>c (key, nxt). observe c key nxt) (observe ch key nxt) obs) k t
     \<longleftrightarrow> successor_of (observe ch key nxt) k t \<or> (k, t) \<in> set obs"
    by (rule Cons.IH)
  then show ?case unfolding o1 by (simp add: successor_of_observe)
qed

lemma keys_observe_all:
  "keys (foldl (\<lambda>c (key, nxt). observe c key nxt) ch obs) = keys ch \<union> fst ` set obs"
proof (induction obs arbitrary: ch)
  case Nil
  show ?case by simp
next
  case (Cons o1 obs)
  obtain key nxt where o1: "o1 = (key, nxt)" by (cases o1)
  have "keys (foldl (\<lambda>c (key, nxt). observe c key nxt) (observe ch key nxt) obs)
          = keys (observe ch key nxt) \<union> fst ` set obs"
    by (rule Cons.IH)
  then show ?case unfolding o1 by (simp add: keys_observe)
qed

lemma distinct_observe_all:
  "distinct (map fst ch) \<Longrightarrow>
   distinct (map fst (foldl (\<lambda>c (key, nxt). observe c key nxt) ch obs))"
proof (induction obs arbitrary: ch)
  case Nil
  then show ?case by simp
next
  case (Cons o1 obs)
  obtain key nxt where o1: "o1 = (key, nxt)" by (cases o1)
  from Cons.IH [OF distinct_observe [OF Cons.prems, of key nxt]]
  show ?case unfolding o1 by simp
qed

lemma nonempty_observe_all:
  "\<forall>k vs. map_of ch k = Some vs \<longrightarrow> vs \<noteq> [] \<Longrightarrow>
   \<forall>k vs. map_of (foldl (\<lambda>c (key, nxt). observe c key nxt) ch obs) k = Some vs \<longrightarrow> vs \<noteq> []"
proof (induction obs arbitrary: ch)
  case Nil
  then show ?case by simp
next
  case (Cons o1 obs)
  obtain key nxt where o1: "o1 = (key, nxt)" by (cases o1)
  from nonempty_observe [OF Cons.prems, of key nxt]
  show ?case unfolding o1 by (simp add: Cons.IH)
qed

lemma successor_of_learned_from:
  "successor_of (foldl (\<lambda>ch raw. update_chain ch (tokenize U raw)) ch msgs) k t
     \<longleftrightarrow> successor_of ch k t \<or> (\<exists>raw \<in> set msgs. (k, t) \<in> set (observations (tokenize U raw)))"
proof (induction msgs arbitrary: ch)
  case Nil
  show ?case by simp
next
  case (Cons raw msgs)
  have "successor_of (update_chain ch (tokenize U raw)) k t
          \<longleftrightarrow> successor_of ch k t \<or> (k, t) \<in> set (observations (tokenize U raw))"
    by (simp add: update_chain_observations successor_of_observe_all)
  with Cons.IH [of "update_chain ch (tokenize U raw)"] show ?case by simp
qed

lemma successor_of_learned:
  "successor_of (learned U msgs) k t
     \<longleftrightarrow> (\<exists>raw \<in> set msgs. (k, t) \<in> set (observations (tokenize U raw)))"
proof -
  have "\<not> successor_of [] k t" by (simp add: successor_of_def)
  then show ?thesis unfolding learned_def successor_of_learned_from by simp
qed

lemma keys_learned_from:
  "keys (foldl (\<lambda>ch raw. update_chain ch (tokenize U raw)) ch msgs)
     = keys ch \<union> (\<Union>raw \<in> set msgs. fst ` set (observations (tokenize U raw)))"
proof (induction msgs arbitrary: ch)
  case Nil
  show ?case by simp
next
  case (Cons raw msgs)
  have "keys (update_chain ch (tokenize U raw))
          = keys ch \<union> fst ` set (observations (tokenize U raw))"
    by (simp add: update_chain_observations keys_observe_all)
  with Cons.IH [of "update_chain ch (tokenize U raw)"] show ?case by simp blast
qed

lemma keys_learned:
  "keys (learned U msgs) = (\<Union>raw \<in> set msgs. fst ` set (observations (tokenize U raw)))"
proof -
  have "keys [] = {}" by (simp add: keys_def)
  then show ?thesis unfolding learned_def keys_learned_from by simp
qed

lemma distinct_learned: "distinct (map fst (learned U msgs))"
proof -
  have "distinct (map fst ch) \<Longrightarrow>
        distinct (map fst (foldl (\<lambda>ch raw. update_chain ch (tokenize U raw)) ch msgs))" for ch
  proof (induction msgs arbitrary: ch)
    case Nil
    then show ?case by simp
  next
    case (Cons raw msgs)
    have "distinct (map fst (update_chain ch (tokenize U raw)))"
      unfolding update_chain_observations by (rule distinct_observe_all [OF Cons.prems])
    from Cons.IH [OF this] show ?case by simp
  qed
  from this [of "[]"] show ?thesis by (simp add: learned_def)
qed

lemma nonempty_learned: "map_of (learned U msgs) k = Some vs \<Longrightarrow> vs \<noteq> []"
proof -
  have "\<forall>k vs. map_of ch k = Some vs \<longrightarrow> vs \<noteq> [] \<Longrightarrow>
        \<forall>k vs. map_of (foldl (\<lambda>ch raw. update_chain ch (tokenize U raw)) ch msgs) k = Some vs
           \<longrightarrow> vs \<noteq> []" for ch
  proof (induction msgs arbitrary: ch)
    case Nil
    then show ?case by simp
  next
    case (Cons raw msgs)
    have "\<forall>k vs. map_of (update_chain ch (tokenize U raw)) k = Some vs \<longrightarrow> vs \<noteq> []"
      unfolding update_chain_observations by (rule nonempty_observe_all [OF Cons.prems])
    from Cons.IH [OF this] show ?case by simp
  qed
  from this [of "[]"] have "\<forall>k vs. map_of (learned U msgs) k = Some vs \<longrightarrow> vs \<noteq> []"
    by (simp add: learned_def)
  then show "map_of (learned U msgs) k = Some vs \<Longrightarrow> vs \<noteq> []" by blast
qed

lemma split_from_tokens:
  "\<forall>c \<in> set cur. \<not> ws c \<Longrightarrow> x \<in> set (split_from ws cur s) \<Longrightarrow>
   x \<noteq> [] \<and> (\<forall>c \<in> set x. \<not> ws c)"
proof (induction s arbitrary: cur)
  case Nil
  then show ?case by (cases "cur = []") simp_all
next
  case (Cons c cs)
  show ?case
  proof (cases "ws c")
    case True
    note sep = this
    have empty: "\<forall>c \<in> set ([] :: pystr). \<not> ws c" by simp
    show ?thesis
    proof (cases "cur = []")
      case True
      with sep Cons.prems(2) have "x \<in> set (split_from ws [] cs)" by simp
      from Cons.IH [OF empty this] show ?thesis .
    next
      case False
      with sep Cons.prems(2) have "x = cur \<or> x \<in> set (split_from ws [] cs)" by simp
      then show ?thesis
      proof
        assume "x = cur"
        with False Cons.prems(1) show ?thesis by simp
      next
        assume "x \<in> set (split_from ws [] cs)"
        from Cons.IH [OF empty this] show ?thesis .
      qed
    qed
  next
    case False
    with Cons.prems(1) have ok: "\<forall>c' \<in> set (cur @ [c]). \<not> ws c'" by simp
    from False Cons.prems(2) have "x \<in> set (split_from ws (cur @ [c]) cs)" by simp
    from Cons.IH [OF ok this] show ?thesis .
  qed
qed

lemma py_split_tokens:
  assumes "x \<in> set (py_split U s)"
  shows "x \<noteq> [] \<and> (\<forall>c \<in> set x. \<not> isspace U c)"
proof -
  have "\<forall>c \<in> set ([] :: pystr). \<not> isspace U c" by simp
  from split_from_tokens [OF this] assms show ?thesis
    unfolding py_split_def by blast
qed

lemma observations_keys:
  "(k, t) \<in> set (observations (xs @ [z])) \<Longrightarrow> length k = MARKOV_ORDER \<and> set k \<subseteq> set xs"
proof (induction xs rule: induct_list012)
  case 1
  then show ?case by simp
next
  case (2 x)
  then show ?case by simp
next
  case (3 x y zs)
  then show ?case
    by (cases zs) (auto simp: MARKOV_ORDER_def)
qed

lemma learned_key_tokens:
  assumes "k \<in> keys (learned U msgs)"
  shows "length k = MARKOV_ORDER \<and> [] \<notin> set k \<and> (\<forall>w \<in> set k. \<forall>c \<in> set w. \<not> isspace U c)"
proof -
  from assms obtain raw t where "raw \<in> set msgs"
    and kt: "(k, t) \<in> set (observations (py_split U raw @ [[]]))"
    by (auto simp: keys_learned tokenize_def)
  from observations_keys [OF kt] py_split_tokens [of _ U raw]
  show ?thesis by blast
qed

lemma last_n_last: "toks \<noteq> [] \<Longrightarrow> last toks \<in> set (last_n MARKOV_ORDER toks)"
  by (cases toks rule: rev_cases) (auto simp: last_n_def MARKOV_ORDER_def)

lemma learned_sentinel_miss:
  "map_of (learned U msgs) (last_n MARKOV_ORDER (toks @ [[]])) = None"
proof (rule ccontr)
  assume "map_of (learned U msgs) (last_n MARKOV_ORDER (toks @ [[]])) \<noteq> None"
  then have "last_n MARKOV_ORDER (toks @ [[]]) \<in> keys (learned U msgs)"
    by (simp add: keys_map_of)
  from learned_key_tokens [OF this] last_n_last [of "toks @ [[]]"]
  show False by simp
qed

lemma markov_loop_total:
  assumes "\<forall>k vs. map_of ch k = Some vs \<longrightarrow> vs \<noteq> []"
  shows "\<exists>out. markov_loop ch n rng toks = Inr out"
proof (induction n arbitrary: rng toks)
  case 0
  show ?case by simp
next
  case (Suc n)
  show ?case
  proof (cases "map_of ch (last_n MARKOV_ORDER toks)")
    case None
    then show ?thesis by simp
  next
    case (Some succs)
    with assms have "succs \<noteq> []" by blast
    from choice_nonempty [OF this] obtain w where "choice succs (rng 0) = Inr w" by blast
    with Some Suc.IH [of "\<lambda>i. rng (Suc i)" "toks @ [w]"] show ?thesis by simp
  qed
qed

lemma str_list_nonempty: "str_list U xs \<noteq> []"
  by (simp add: str_list_def py_def)

lemma text_loop_total:
  assumes "\<forall>k vs. map_of ch k = Some vs \<longrightarrow> vs \<noteq> []"
  shows "\<exists>out. text_loop U (chain_table_of U ch) n rng toks = Inr out"
proof (induction n arbitrary: rng toks)
  case 0
  show ?case by simp
next
  case (Suc n)
  show ?case
  proof (cases "map_of ch (last_n MARKOV_ORDER toks)")
    case None
    then show ?thesis by (simp add: map_of_chain_table_of)
  next
    case (Some succs)
    with assms have "succs \<noteq> []" by blast
    from choice_nonempty [OF this] obtain w where "choice succs (rng 0) = Inr w" by blast
    with Some Suc.IH [of "\<lambda>i. rng (Suc i)" "toks @ [w]"] show ?thesis
      by (simp add: map_of_chain_table_of str_list_nonempty py_eval_str_list)
  qed
qed

lemma text_loop_sentinel_last:
  "text_loop U rows n rng toks = Inr out \<Longrightarrow>
     \<forall>j. length toks \<le> j \<and> Suc j < length out \<longrightarrow> out ! j \<noteq> []"
proof (induction n arbitrary: rng toks)
  case 0
  then show ?case by auto
next
  case (Suc n)
  show ?case
  proof (cases "map_of rows (str_tuple U (last_n MARKOV_ORDER toks))")
    case None
    with Suc.prems show ?thesis by auto
  next
    case (Some e)
    show ?thesis
    proof (cases "e = []")
      case True
      with Some Suc.prems show ?thesis by auto
    next
      case False
      with Some Suc.prems obtain v w where
        v: "py_eval e = Some v" and
        w: "choice (elems v) (rng 0) = Inr w" and
        rec: "(if w = [] then Inr (toks @ [w])
               else text_loop U rows n (\<lambda>i. rng (Suc i)) (toks @ [w])) = Inr out"
        by (auto split: sum.splits option.splits)
      show ?thesis
      proof (cases "w = []")
        case True
        with rec show ?thesis by auto
      next
        case False
        with rec have r: "text_loop U rows n (\<lambda>i. rng (Suc i)) (toks @ [w]) = Inr out" by simp
        from text_loop_valid [OF r] have "take (length toks + 1) out = toks @ [w]"
          and "length toks + 1 \<le> length out" by auto
        then have at: "out ! length toks = w"
          by (metis Suc_eq_plus1 lessI nth_append_length nth_take)
        have "out ! j \<noteq> []" if "length toks \<le> j" "Suc j < length out" for j
        proof (cases "j = length toks")
          case True
          with at False show ?thesis by simp
        next
          case False
          with that Suc.IH [OF r] show ?thesis by simp
        qed
        then show ?thesis by simp
      qed
    qed
  qed
qed

lemma row_successor_of_chain_table_of:
  "row_successor_of U (chain_table_of U ch) k t \<longleftrightarrow> successor_of ch k t"
  by (cases "map_of ch k")
     (simp_all add: row_successor_of_def successor_of_def map_of_chain_table_of py_eval_str_list)

lemma update_chain_short: "length toks < MARKOV_ORDER + 1 \<Longrightarrow> update_chain ch toks = ch"
  by (simp add: update_chain_def)

lemma build_markov_chain_short:
  "length (words @ [[]]) < MARKOV_ORDER + 1 \<Longrightarrow> build_markov_chain U words rows = Inr rows"
  by (simp add: build_markov_chain_def Let_def)

lemma generate_markov_tokens_seed:
  "generate_markov_tokens ch max_words rng = Inr out \<Longrightarrow>
   \<exists>seed \<in> keys ch. markov_loop ch (nat max_words) (\<lambda>i. rng (Suc i)) seed = Inr out"
  by (auto simp: generate_markov_tokens_def keys_def split: sum.splits dest!: choice_in_set)

lemma generate_tokens_seed:
  "generate_tokens U rows max_words rng = Inr out \<Longrightarrow>
   \<exists>key. get_random_key U rows (rng 0) = Inr key \<and>
         text_loop U rows (nat max_words) (\<lambda>i. rng (Suc i)) (elems key) = Inr out"
  by (auto simp: generate_tokens_def split: sum.splits)

lemma str_tuple_nonempty: "str_tuple U k \<noteq> []"
  by (simp add: str_tuple_def py_def)

lemma get_random_key_chain_table_of:
  "get_random_key U (chain_table_of U ch) r
     = Inr (PyTuple (if ch = [] then [py ''start'', py ''here''] else fst (ch ! (r mod length ch))))"
proof (cases "ch = []")
  case True
  then show ?thesis by (simp add: get_random_key_def chain_table_of_def)
next
  case False
  then have lt: "r mod length ch < length ch" by simp
  obtain k vs where kv: "ch ! (r mod length ch) = (k, vs)" by (cases "ch ! (r mod length ch)")
  from lt kv have row: "chain_table_of U ch ! (r mod length ch) = (str_tuple U k, str_list U vs)"
    by (simp add: chain_table_of_def)
  have ne: "chain_table_of U ch \<noteq> []" "length (chain_table_of U ch) = length ch"
    using False by (simp_all add: chain_table_of_def)
  show ?thesis
    using False by (simp add: get_random_key_def Let_def ne row kv str_tuple_nonempty py_eval_str_tuple)
qed

lemma markov_loop_miss:
  "map_of ch (last_n MARKOV_ORDER seed) = None \<Longrightarrow> markov_loop ch n rng seed = Inr seed"
  by (cases n) simp_all

lemma text_loop_miss:
  "map_of rows (str_tuple U (last_n MARKOV_ORDER seed)) = None \<Longrightarrow>
   text_loop U rows n rng seed = Inr seed"
  by (cases n) simp_all

lemma markov_loop_learned_total: "\<exists>out. markov_loop (learned U msgs) n rng seed = Inr out"
  by (rule markov_loop_total) (blast dest: nonempty_learned)

lemma text_loop_learned_total:
  "\<exists>out. text_loop U (chain_table_of U (learned U msgs)) n rng seed = Inr out"
  by (rule text_loop_total) (blast dest: nonempty_learned)

lemma generate_tokens_learned_total:
  "\<exists>out. generate_tokens U (chain_table_of U (learned U msgs)) max_words rng = Inr out"
  using text_loop_learned_total
  by (simp add: generate_tokens_def get_random_key_chain_table_of)

lemma generate_markov_tokens_learned_total:
  "learned U msgs \<noteq> [] \<Longrightarrow> \<exists>out. generate_markov_tokens (learned U msgs) max_words rng = Inr out"
  using markov_loop_learned_total
  by (simp add: generate_markov_tokens_def choice_def)

lemma update_absent: "map_of ch k = None \<Longrightarrow> AList.update k v ch = ch @ [(k, v)]"
  by (induction ch) (auto split: if_splits)

lemma update_last: "map_of ch k = None \<Longrightarrow> AList.update k v (ch @ [(k, w)]) = ch @ [(k, v)]"
  by (induction ch) (auto split: if_splits)

lemma observe_add_observation: "observe ch key nxt = add_observation ch key nxt"
proof (cases "map_of ch key")
  case None
  then have "map_of (ch @ [(key, [])]) key = Some []"
    by (simp add: map_add_def)
  with None show ?thesis
    by (simp add: observe_def add_observation_def Let_def update_absent update_last
        del: map_of_append)
next
  case (Some succs)
  then show ?thesis
    by (simp add: observe_def add_observation_def Let_def)
qed

lemma update_chain_add_observation:
  "update_chain ch toks
     = foldl (\<lambda>c (key, nxt). add_observation c key nxt) ch (observations toks)"
proof -
  have "(\<lambda>c (key, nxt). observe c key nxt) = (\<lambda>c (key, nxt). add_observation c key nxt)"
    by (simp add: observe_add_observation)
  then show ?thesis by (simp add: update_chain_observations)
qed

lemma successor_of_update_chain:
  "successor_of (update_chain ch toks) k t
     \<longleftrightarrow> successor_of ch k t \<or> (k, t) \<in> set (observations toks)"
  by (simp add: update_chain_observations successor_of_observe_all)

lemma keys_update_chain:
  "keys (update_chain ch toks) = keys ch \<union> fst ` set (observations toks)"
  by (simp add: update_chain_observations keys_observe_all)

lemma chain_table_of_Nil: "chain_table_of U [] = []"
  by (simp add: chain_table_of_def)

lemma markov_loop_sentinel_last:
  assumes nokey: "\<forall>k \<in> keys ch. [] \<notin> set k"
    and run: "markov_loop ch n rng seed = Inr out"
  shows "\<forall>j. length seed \<le> j \<and> Suc j < length out \<longrightarrow> out ! j \<noteq> []"
proof (intro allI impI)
  fix j
  assume j: "length seed \<le> j \<and> Suc j < length out"
  from markov_loop_valid [OF run] j
  have "successor_of ch (last_n MARKOV_ORDER (take (Suc j) out)) (out ! Suc j)"
    by simp
  then have "last_n MARKOV_ORDER (take (Suc j) out) \<in> keys ch"
    by (simp add: successor_of_def keys_map_of split: option.splits)
  with nokey have no: "[] \<notin> set (last_n MARKOV_ORDER (take (Suc j) out))" by blast
  from j have ne: "take (Suc j) out \<noteq> []" by auto
  from j have "take (Suc j) out = take j out @ [out ! j]"
    by (simp add: take_Suc_conv_app_nth)
  then have "last (take (Suc j) out) = out ! j" by simp
  with last_n_last [OF ne] no show "out ! j \<noteq> []" by metis
qed

lemma markov_loop_sentinel_last_learned:
  "markov_loop (learned U msgs) n rng seed = Inr out \<Longrightarrow>
   \<forall>j. length seed \<le> j \<and> Suc j < length out \<longrightarrow> out ! j \<noteq> []"
  by (rule markov_loop_sentinel_last) (use learned_key_tokens in blast)+

section \<open>Empty stores, counters, sizes, the saved files\<close>

lemma get_random_key_empty: "get_random_key U [] r = Inr (PyTuple [py ''start'', py ''here''])"
  by (simp add: get_random_key_def)

lemma generate_tokens_empty: "generate_tokens U [] max_words rng = Inr [py ''start'', py ''here'']"
  by (simp add: generate_tokens_def get_random_key_empty text_loop_miss)

lemma generate_text_empty: "generate_text U [] max_words rng = Inr (strip U (py ''start here''))"
  by (simp add: generate_text_def generate_tokens_empty py_def)

lemma strip_start_here:
  "\<not> isspace U (cp CHR ''s'') \<Longrightarrow> \<not> isspace U (cp CHR ''e'') \<Longrightarrow>
   strip U (py ''start here'') = py ''start here''"
  by (simp add: strip_def py_def)

lemma generate_markov_text_empty: "generate_markov_text [] max_words rng = Inl IndexError"
  by (simp add: generate_markov_text_def generate_markov_tokens_def choice_def)

lemma update_stat_empty: "update_stat key v [] = []"
  by (simp add: update_stat_def)

lemma handle_message_no_stats:
  "stat_rows (fst (handle_message U txt reply rng \<lparr>chain_rows = rows, stat_rows = []\<rparr>)) = []"
  by (simp add: handle_message_def Let_def update_stat_empty split: sum.splits)

lemma on_message_learn_counts:
  "total_messages (on_message_learn U raw m) = total_messages m + 1"
  by (simp add: on_message_learn_def)

lemma on_message_counts:
  "total_messages (fst (fst (on_message U raw reply rng st))) = total_messages (fst st) + 1"
  by (simp add: on_message_def Let_def on_message_learn_def split: sum.splits)

lemma map_of_update_stat:
  "map_of (update_stat key v rows) k
     = (if k = key then map_option (\<lambda>old. v) (map_of rows k) else map_of rows k)"
  by (induction rows) (auto simp: update_stat_def)

lemma handle_message_counts:
  assumes "map_of (stat_rows db) (py ''total_messages'') = Some v"
  shows "get_stat (py ''total_messages'') (stat_rows (fst (handle_message U txt reply rng db)))
           = v + 1"
  using assms
  by (simp add: handle_message_def Let_def get_stat_def map_of_update_stat py_def
      split: sum.splits)

lemma strip_no_trailing_space:
  "strip U s \<noteq> [] \<Longrightarrow> \<not> isspace U (last (strip U s)) \<and> \<not> isspace U (hd (strip U s))"
proof -
  assume ne: "strip U s \<noteq> []"
  let ?a = "dropWhile (isspace U) s"
  let ?b = "dropWhile (isspace U) (rev ?a)"
  from ne have b: "?b \<noteq> []" by (simp add: strip_def)
  then have "\<not> isspace U (hd ?b)" by (rule hd_dropWhile)
  with b have l: "\<not> isspace U (last (strip U s))" by (simp add: strip_def last_rev)
  have a: "?a \<noteq> []"
  proof
    assume e: "?a = []"
    from b show False unfolding e by simp
  qed
  then have ha: "\<not> isspace U (hd ?a)" by (rule hd_dropWhile)
  from b obtain ys where "rev ?a = takeWhile (isspace U) (rev ?a) @ ?b" by simp
  then have "?a = rev ?b @ rev (takeWhile (isspace U) (rev ?a))"
    by (metis rev_append rev_rev_ident)
  with b have "hd ?a = hd (rev ?b)" by (metis hd_append2 rev_is_Nil_conv)
  with ha have "\<not> isspace U (hd (strip U s))" by (simp add: strip_def)
  with l show ?thesis by simp
qed

lemma generate_text_no_trailing_space:
  "generate_text U rows max_words rng = Inr s \<Longrightarrow> s \<noteq> [] \<Longrightarrow>
   \<not> isspace U (last s) \<and> \<not> isspace U (hd s)"
  by (auto simp: generate_text_def split: sum.splits dest: strip_no_trailing_space)

lemma foldl_update_distinct:
  "distinct (map fst (d @ ps)) \<Longrightarrow>
   foldl (\<lambda>d (k, v). AList.update k v d) d ps = d @ ps"
proof (induction ps arbitrary: d)
  case Nil
  show ?case by simp
next
  case (Cons p ps)
  obtain k v where p: "p = (k, v)" by (cases p)
  from Cons.prems have "k \<notin> fst ` set d" by (auto simp: p)
  then have "map_of d k = None" by (simp add: map_of_eq_None_iff)
  then have u: "AList.update k v d = d @ [(k, v)]" by (rule update_absent)
  from Cons.prems have "distinct (map fst ((d @ [(k, v)]) @ ps))" by (simp add: p)
  from Cons.IH [OF this] show ?case by (simp add: p u)
qed

lemma dict_of_distinct: "distinct (map fst ps) \<Longrightarrow> dict_of ps = ps"
  using foldl_update_distinct [of "[]" ps] by (simp add: dict_of_def)

lemma distinct_str_tuple_keys:
  "distinct (map fst ch) \<Longrightarrow> distinct (map (\<lambda>p. str_tuple U (fst p)) ch)"
proof -
  assume d: "distinct (map fst ch)"
  have inj: "inj_on (str_tuple U) (set (map fst ch))"
    by (rule inj_onI) (rule str_tuple_inj)
  have "distinct (map (str_tuple U) (map fst ch))"
    using d inj unfolding distinct_map [of "str_tuple U" "map fst ch"] by blast
  then show ?thesis by (simp add: comp_def)
qed

lemma strings_of_JStr: "strings_of (JList (map JStr vs)) = Some vs"
  by (induction vs) simp_all

lemma load_items_saved:
  "load_items U (map (\<lambda>(k, value). (str_tuple U k, JList (map JStr value))) ch) d
     = Inr (foldl (\<lambda>d (k, v). AList.update k v d) d ch)"
proof (induction ch arbitrary: d)
  case Nil
  show ?case by simp
next
  case (Cons p ch)
  obtain k v where p: "p = (k, v)" by (cases p)
  show ?case by (simp add: p py_eval_str_tuple strings_of_JStr Cons.IH)
qed

lemma load_chain_saved:
  assumes "distinct (map fst (markov_chain m))"
  shows "load_chain U (save_markov_chain U m fs) = Inr (markov_chain m)"
proof -
  let ?ch = "markov_chain m"
  let ?ser = "map (\<lambda>(key, value). (str_tuple U key, value)) ?ch"
  let ?js = "map (\<lambda>(k, value). (str_tuple U k, JList (map JStr value))) ?ch"
  have e1: "map fst ?ser = map (\<lambda>p. str_tuple U (fst p)) ?ch"
    by (simp add: case_prod_unfold)
  have "distinct (map fst ?ser)"
    unfolding e1 by (rule distinct_str_tuple_keys [OF assms])
  then have ser: "dict_of ?ser = ?ser" by (rule dict_of_distinct)
  have js: "map (\<lambda>(k, value). (k, JList (map JStr value))) ?ser = ?js"
    by (induction "markov_chain m") auto
  have e2: "map fst ?js = map (\<lambda>p. str_tuple U (fst p)) ?ch"
    by (simp add: case_prod_unfold)
  have "distinct (map fst ?js)"
    unfolding e2 by (rule distinct_str_tuple_keys [OF assms])
  then have djs: "dict_of ?js = ?js" by (rule dict_of_distinct)
  have cf: "chain_file (save_markov_chain U m fs) = Some (JObj ?js)"
    unfolding save_markov_chain_def Let_def ser js by simp
  have "load_items U ?js [] = Inr (dict_of ?ch)"
    unfolding dict_of_def by (rule load_items_saved)
  also have "dict_of ?ch = ?ch" by (rule dict_of_distinct [OF assms])
  finally show ?thesis by (simp add: load_chain_def cf djs)
qed

lemma load_stats_saved:
  "load_stats (save_markov_chain U m fs) = Inr (total_messages m, generated_messages m)"
  by (simp add: load_stats_def save_markov_chain_def Let_def dict_of_def py_def)

lemma load_save:
  assumes "distinct (map fst (markov_chain m))"
  shows "load_markov_chain U (save_markov_chain U m fs) = Inr m"
  by (simp add: load_markov_chain_def load_chain_saved [OF assms] load_stats_saved)

section \<open>The claims\<close>

text \<open>
  C5.  Adding the same observation twice leaves the store as adding it once does.  In
  markov.py the loop body \<open>observe\<close> applied twice is \<open>observe\<close> applied once.  In
  new\_bot.py the loop body \<open>build_step\<close> on the table of a dict writes the table of the
  dict after \<open>observe\<close>, and on any table on which it succeeds a second call with the same
  arguments returns the table unchanged.
\<close>

theorem add_observation_idempotent:
  "observe (observe ch C t) C t = observe ch C t
   \<and> build_step U (chain_table_of U ch) C t = Inr (chain_table_of U (observe ch C t))
   \<and> (\<forall>rows rows'. build_step U rows C t = Inr rows' \<longrightarrow> build_step U rows' C t = Inr rows')"
  using observe_twice build_step_refines build_step_twice by blast

theorem add_observation_idempotent_witness:
  "build_step ascii [] [py ''a'', py ''b''] (py ''c'')
     = Inr (chain_table_of ascii [([py ''a'', py ''b''], [py ''c''])])
   \<and> build_step ascii (chain_table_of ascii [([py ''a'', py ''b''], [py ''c''])])
         [py ''a'', py ''b''] (py ''c'')
     = Inr (chain_table_of ascii [([py ''a'', py ''b''], [py ''c''])])"
proof -
  have h: "build_step ascii [] [py ''a'', py ''b''] (py ''c'')
             = Inr (chain_table_of ascii [([py ''a'', py ''b''], [py ''c''])])"
    by (simp add: build_step_def chain_table_of_def)
  from add_observation_idempotent [of "[]" "[py ''a'', py ''b'']" "py ''c''" ascii] h
  show ?thesis by blast
qed

text \<open>
  C4.  For a tokenized message \<open>toks\<close> of length L (sentinel included) the observations are
  L - 2 in number, the one at index \<open>i\<close> being the window \<open>toks[i:i+2]\<close> with the token
  \<open>toks[i+2]\<close>.  The loop body of markov.py is the \<open>add_observation\<close> of the
  specification, and the loop body of new\_bot.py writes the table of the dict after it.
  The loop of markov.py is \<open>add_observation\<close> on each observation in order;
  \<open>build_markov_chain\<close> of new\_bot.py on the table of a dict returns the table of the dict
  after the same calls, and on any table it is \<open>build_step\<close> on each observation in order
  up to the first error.  After learning, a token is a successor of a key exactly when it
  was one before or the pair is an observation of the message, and the keys are the keys
  before and the keys observed.  A message shorter than 3 tokens leaves the store as it is
  and is no error.
\<close>

theorem learn_observations:
  "length (observations toks) = length toks - MARKOV_ORDER
   \<and> (\<forall>i. i < length toks - MARKOV_ORDER \<longrightarrow>
          observations toks ! i = (take MARKOV_ORDER (drop i toks), toks ! (i + MARKOV_ORDER)))
   \<and> observe ch key nxt = add_observation ch key nxt
   \<and> build_step U (chain_table_of U ch) key nxt = Inr (chain_table_of U (add_observation ch key nxt))
   \<and> update_chain ch toks
        = foldl (\<lambda>c (key, nxt). add_observation c key nxt) ch (observations toks)
   \<and> build_markov_chain U words (chain_table_of U ch)
        = Inr (chain_table_of U
                 (foldl (\<lambda>c (key, nxt). add_observation c key nxt) ch (observations (words @ [[]]))))
   \<and> build_markov_chain U words rows = build_all U (observations (words @ [[]])) rows
   \<and> (successor_of (update_chain ch toks) k t
        \<longleftrightarrow> successor_of ch k t \<or> (k, t) \<in> set (observations toks))
   \<and> keys (update_chain ch toks) = keys ch \<union> fst ` set (observations toks)
   \<and> (row_successor_of U (chain_table_of U (update_chain ch (words @ [[]]))) k t
        \<longleftrightarrow> successor_of ch k t \<or> (k, t) \<in> set (observations (words @ [[]])))
   \<and> (length toks < MARKOV_ORDER + 1 \<longrightarrow> update_chain ch toks = ch)
   \<and> (length (words @ [[]]) < MARKOV_ORDER + 1 \<longrightarrow> build_markov_chain U words rows = Inr rows)"
proof -
  have "length (observations toks) = length toks - MARKOV_ORDER"
    by (rule length_observations)
  moreover
  have "\<forall>i. i < length toks - MARKOV_ORDER \<longrightarrow>
          observations toks ! i = (take MARKOV_ORDER (drop i toks), toks ! (i + MARKOV_ORDER))"
    using nth_observations by blast
  moreover
  have "observe ch key nxt = add_observation ch key nxt"
    by (rule observe_add_observation)
  moreover
  have "build_step U (chain_table_of U ch) key nxt
          = Inr (chain_table_of U (add_observation ch key nxt))"
    by (simp only: build_step_refines observe_add_observation)
  moreover
  have "update_chain ch toks
        = foldl (\<lambda>c (key, nxt). add_observation c key nxt) ch (observations toks)"
    by (rule update_chain_add_observation)
  moreover
  have "build_markov_chain U words (chain_table_of U ch)
        = Inr (chain_table_of U
                 (foldl (\<lambda>c (key, nxt). add_observation c key nxt) ch (observations (words @ [[]]))))"
    by (simp only: build_markov_chain_refines update_chain_add_observation)
  moreover
  have "build_markov_chain U words rows = build_all U (observations (words @ [[]])) rows"
    by (rule build_markov_chain_observations)
  moreover
  have "successor_of (update_chain ch toks) k t
        \<longleftrightarrow> successor_of ch k t \<or> (k, t) \<in> set (observations toks)"
    by (rule successor_of_update_chain)
  moreover
  have "keys (update_chain ch toks) = keys ch \<union> fst ` set (observations toks)"
    by (rule keys_update_chain)
  moreover
  have "row_successor_of U (chain_table_of U (update_chain ch (words @ [[]]))) k t
        \<longleftrightarrow> successor_of ch k t \<or> (k, t) \<in> set (observations (words @ [[]]))"
    by (simp only: row_successor_of_chain_table_of successor_of_update_chain)
  moreover
  have "length toks < MARKOV_ORDER + 1 \<longrightarrow> update_chain ch toks = ch"
    by (simp add: update_chain_short)
  moreover
  have "length (words @ [[]]) < MARKOV_ORDER + 1 \<longrightarrow> build_markov_chain U words rows = Inr rows"
    using build_markov_chain_short by blast
  ultimately show ?thesis by (intro conjI)
qed

theorem learn_observations_witness:
  "(1::nat) < length (tokenize ascii (py ''the cat sat'')) - MARKOV_ORDER
   \<and> observations (tokenize ascii (py ''the cat sat'')) ! 1 = ([py ''cat'', py ''sat''], [])
   \<and> update_chain [] (tokenize ascii (py ''the cat sat''))
        = [([py ''the'', py ''cat''], [py ''sat'']), ([py ''cat'', py ''sat''], [[]])]
   \<and> update_chain [([py ''the'', py ''cat''], [py ''sat'']), ([py ''cat'', py ''sat''], [[]])]
          (tokenize ascii (py ''the cat ran''))
        = [([py ''the'', py ''cat''], [py ''sat'', py ''ran'']), ([py ''cat'', py ''sat''], [[]]),
           ([py ''cat'', py ''ran''], [[]])]
   \<and> build_markov_chain ascii [py ''the'', py ''cat'', py ''sat''] []
        = Inr (chain_table_of ascii
                 [([py ''the'', py ''cat''], [py ''sat'']), ([py ''cat'', py ''sat''], [[]])])
   \<and> length (tokenize ascii (py ''cat'')) < MARKOV_ORDER + 1
   \<and> update_chain [([py ''the'', py ''cat''], [py ''sat''])] (tokenize ascii (py ''cat''))
        = [([py ''the'', py ''cat''], [py ''sat''])]
   \<and> length ([py ''cat''] @ [[]]) < MARKOV_ORDER + 1
   \<and> build_markov_chain ascii [py ''cat''] [] = Inr []"
proof -
  have t1: "tokenize ascii (py ''the cat sat'') = [py ''the'', py ''cat'', py ''sat'', []]"
    by (simp add: tokenize_def py_split_def ascii_def py_def)
  have t2: "tokenize ascii (py ''the cat ran'') = [py ''the'', py ''cat'', py ''ran'', []]"
    by (simp add: tokenize_def py_split_def ascii_def py_def)
  have t3: "tokenize ascii (py ''cat'') = [py ''cat'', []]"
    by (simp add: tokenize_def py_split_def ascii_def py_def)
  have o1: "observations [py ''the'', py ''cat'', py ''sat'', []]
              = [([py ''the'', py ''cat''], py ''sat''), ([py ''cat'', py ''sat''], [])]"
    by simp
  have o2: "observations [py ''the'', py ''cat'', py ''ran'', []]
              = [([py ''the'', py ''cat''], py ''ran''), ([py ''cat'', py ''ran''], [])]"
    by simp
  note a = learn_observations [where toks = "tokenize ascii (py ''the cat sat'')" and ch = "[]"
      and U = ascii and words = "[py ''the'', py ''cat'', py ''sat'']" and rows = "[]"
      and key = "[]" and nxt = "[]" and k = "[]" and t = "[]"]
  note b = learn_observations [where toks = "tokenize ascii (py ''the cat ran'')"
      and ch = "[([py ''the'', py ''cat''], [py ''sat'']), ([py ''cat'', py ''sat''], [[]])]"
      and U = ascii and words = "[py ''cat'']" and rows = "[]"
      and key = "[]" and nxt = "[]" and k = "[]" and t = "[]"]
  note c = learn_observations [where toks = "tokenize ascii (py ''cat'')"
      and ch = "[([py ''the'', py ''cat''], [py ''sat''])]"
      and U = ascii and words = "[py ''cat'']" and rows = "[]"
      and key = "[]" and nxt = "[]" and k = "[]" and t = "[]"]
  have u1: "update_chain [] (tokenize ascii (py ''the cat sat''))
        = [([py ''the'', py ''cat''], [py ''sat'']), ([py ''cat'', py ''sat''], [[]])]"
    using a unfolding t1 o1 by (simp add: add_observation_def py_def)
  have u2: "update_chain [([py ''the'', py ''cat''], [py ''sat'']), ([py ''cat'', py ''sat''], [[]])]
          (tokenize ascii (py ''the cat ran''))
        = [([py ''the'', py ''cat''], [py ''sat'', py ''ran'']), ([py ''cat'', py ''sat''], [[]]),
           ([py ''cat'', py ''ran''], [[]])]"
    using b unfolding t2 o2 by (simp add: add_observation_def py_def)
  have u3: "build_markov_chain ascii [py ''the'', py ''cat'', py ''sat''] []
        = Inr (chain_table_of ascii
                 [([py ''the'', py ''cat''], [py ''sat'']), ([py ''cat'', py ''sat''], [[]])])"
    using a chain_table_of_Nil [of ascii] unfolding o1 by (simp add: add_observation_def py_def)
  have u4: "(1::nat) < length (tokenize ascii (py ''the cat sat'')) - MARKOV_ORDER
     \<and> observations (tokenize ascii (py ''the cat sat'')) ! 1 = ([py ''cat'', py ''sat''], [])"
    using a unfolding t1 by (simp add: MARKOV_ORDER_def)
  have u5: "length (tokenize ascii (py ''cat'')) < MARKOV_ORDER + 1
     \<and> update_chain [([py ''the'', py ''cat''], [py ''sat''])] (tokenize ascii (py ''cat''))
        = [([py ''the'', py ''cat''], [py ''sat''])]
     \<and> length ([py ''cat''] @ [[]]) < MARKOV_ORDER + 1
     \<and> build_markov_chain ascii [py ''cat''] [] = Inr []"
    using c unfolding t3 by (simp add: MARKOV_ORDER_def)
  from u1 u2 u3 u4 u5 show ?thesis by simp
qed

text \<open>
  C8.  As stated the claim fails: the loop of markov.py has no test of the token it drew,
  and on a store with a key that holds the sentinel it goes on after the sentinel.
\<close>

theorem markov_loop_past_sentinel_counterexample:
  "markov_loop [([py ''a'', py ''b''], [[]]), ([py ''b'', []], [py ''c''])] 2 (\<lambda>i. 0)
     [py ''a'', py ''b'']
   = Inr [py ''a'', py ''b'', [], py ''c'']"
  by (simp add: eval_nat_numeral choice_def last_n_def MARKOV_ORDER_def py_def)

text \<open>
  C8, amended.  Generation ends, and appends at most \<open>max_words\<close> tokens to the seed.
  Both loops return at most \<open>n\<close> tokens beyond the seed whenever they return a token
  list; both generators do so for the key they drew and \<open>max_words\<close>.  A loop stops at
  once when the last two tokens are not a key of the store.  The loop of new\_bot.py stops
  when it draws the sentinel, on every table; the loop of markov.py has the sentinel as
  its last token only on a store learned from messages.  On a store learned from messages
  both loops return a token list (an error is the other outcome, on a store with an empty
  successor list or a row that \<open>eval\<close> does not read), and so do the generators,
  markov.py's unless the dict is empty.
\<close>

theorem generate_bounded:
  "(\<forall>out. markov_loop ch n rng seed = Inr out \<longrightarrow> length out \<le> length seed + n)
   \<and> (\<forall>out. text_loop U rows n rng seed = Inr out \<longrightarrow> length out \<le> length seed + n)
   \<and> (\<forall>out. generate_markov_tokens ch max_words rng = Inr out \<longrightarrow>
          (\<exists>key \<in> keys ch. length out \<le> length key + nat max_words))
   \<and> (\<forall>out. generate_tokens U rows max_words rng = Inr out \<longrightarrow>
          (\<exists>key. get_random_key U rows (rng 0) = Inr key
                \<and> length out \<le> length (elems key) + nat max_words))
   \<and> (map_of ch (last_n MARKOV_ORDER seed) = None \<longrightarrow> markov_loop ch n rng seed = Inr seed)
   \<and> (map_of rows (str_tuple U (last_n MARKOV_ORDER seed)) = None \<longrightarrow>
          text_loop U rows n rng seed = Inr seed)
   \<and> (\<forall>out. text_loop U rows n rng seed = Inr out \<longrightarrow>
          (\<forall>j. length seed \<le> j \<and> Suc j < length out \<longrightarrow> out ! j \<noteq> []))
   \<and> (\<forall>out. markov_loop (learned U msgs) n rng seed = Inr out \<longrightarrow>
          (\<forall>j. length seed \<le> j \<and> Suc j < length out \<longrightarrow> out ! j \<noteq> []))
   \<and> (\<exists>out. markov_loop (learned U msgs) n rng seed = Inr out)
   \<and> (\<exists>out. text_loop U (chain_table_of U (learned U msgs)) n rng seed = Inr out)
   \<and> (learned U msgs \<noteq> [] \<longrightarrow>
          (\<exists>out. generate_markov_tokens (learned U msgs) max_words rng = Inr out))
   \<and> (\<exists>out. generate_tokens U (chain_table_of U (learned U msgs)) max_words rng = Inr out)"
proof -
  have "\<forall>out. markov_loop ch n rng seed = Inr out \<longrightarrow> length out \<le> length seed + n"
    using markov_loop_length by blast
  moreover
  have "\<forall>out. text_loop U rows n rng seed = Inr out \<longrightarrow> length out \<le> length seed + n"
    using text_loop_length by blast
  moreover
  have "\<forall>out. generate_markov_tokens ch max_words rng = Inr out \<longrightarrow>
          (\<exists>key \<in> keys ch. length out \<le> length key + nat max_words)"
    by (blast dest: generate_markov_tokens_seed markov_loop_length)
  moreover
  have "\<forall>out. generate_tokens U rows max_words rng = Inr out \<longrightarrow>
          (\<exists>key. get_random_key U rows (rng 0) = Inr key
                \<and> length out \<le> length (elems key) + nat max_words)"
    by (blast dest: generate_tokens_seed text_loop_length)
  moreover
  have "map_of ch (last_n MARKOV_ORDER seed) = None \<longrightarrow> markov_loop ch n rng seed = Inr seed"
    by (simp add: markov_loop_miss)
  moreover
  have "map_of rows (str_tuple U (last_n MARKOV_ORDER seed)) = None \<longrightarrow>
          text_loop U rows n rng seed = Inr seed"
    by (simp add: text_loop_miss)
  moreover
  have "\<forall>out. text_loop U rows n rng seed = Inr out \<longrightarrow>
          (\<forall>j. length seed \<le> j \<and> Suc j < length out \<longrightarrow> out ! j \<noteq> [])"
    using text_loop_sentinel_last by blast
  moreover
  have "\<forall>out. markov_loop (learned U msgs) n rng seed = Inr out \<longrightarrow>
          (\<forall>j. length seed \<le> j \<and> Suc j < length out \<longrightarrow> out ! j \<noteq> [])"
    using markov_loop_sentinel_last_learned by blast
  moreover
  have "\<exists>out. markov_loop (learned U msgs) n rng seed = Inr out"
    by (rule markov_loop_learned_total)
  moreover
  have "\<exists>out. text_loop U (chain_table_of U (learned U msgs)) n rng seed = Inr out"
    by (rule text_loop_learned_total)
  moreover
  have "learned U msgs \<noteq> [] \<longrightarrow>
          (\<exists>out. generate_markov_tokens (learned U msgs) max_words rng = Inr out)"
    using generate_markov_tokens_learned_total by blast
  moreover
  have "\<exists>out. generate_tokens U (chain_table_of U (learned U msgs)) max_words rng = Inr out"
    by (rule generate_tokens_learned_total)
  ultimately show ?thesis by (intro conjI)
qed

theorem generate_bounded_witness:
  "markov_loop [([py ''a'', py ''b''], [py ''c''])] 2 (\<lambda>i. 0) [py ''a'', py ''b'']
     = Inr [py ''a'', py ''b'', py ''c'']
   \<and> length [py ''a'', py ''b'', py ''c''] \<le> length [py ''a'', py ''b''] + 2
   \<and> map_of ([] :: chain) (last_n MARKOV_ORDER [py ''a'']) = None
   \<and> markov_loop [] 2 (\<lambda>i. 0) [py ''a''] = Inr [py ''a'']"
  using generate_bounded [where ch = "[([py ''a'', py ''b''], [py ''c''])]" and n = 2
      and rng = "\<lambda>i. 0" and seed = "[py ''a'', py ''b'']" and U = ascii and rows = "[]"
      and max_words = 0 and msgs = "[]"]
    generate_bounded [where ch = "[]" and n = 2
      and rng = "\<lambda>i. 0" and seed = "[py ''a'']" and U = ascii and rows = "[]"
      and max_words = 0 and msgs = "[]"]
  by (simp add: eval_nat_numeral choice_def last_n_def MARKOV_ORDER_def py_def)

text \<open>
  C9.  Every token of the generated list after the seed is in the successor list that the
  store holds for the last two tokens before it.  In a store learned from messages the
  successor list of a key holds exactly the tokens observed after that key in one of the
  messages; the table of new\_bot.py after the same messages is the table of that dict.
\<close>

theorem generate_valid:
  "(\<forall>out. generate_markov_tokens ch max_words rng = Inr out \<longrightarrow>
      (\<exists>key \<in> keys ch. take (length key) out = key \<and>
         (\<forall>j. length key \<le> j \<and> j < length out \<longrightarrow>
              successor_of ch (last_n MARKOV_ORDER (take j out)) (out ! j))))
   \<and> (\<forall>out. generate_tokens U rows max_words rng = Inr out \<longrightarrow>
      (\<exists>key. get_random_key U rows (rng 0) = Inr key \<and> take (length (elems key)) out = elems key \<and>
         (\<forall>j. length (elems key) \<le> j \<and> j < length out \<longrightarrow>
              row_successor_of U rows (last_n MARKOV_ORDER (take j out)) (out ! j))))
   \<and> (successor_of (learned U msgs) k t
        \<longleftrightarrow> (\<exists>raw \<in> set msgs. (k, t) \<in> set (observations (tokenize U raw))))
   \<and> build_messages U msgs [] = Inr (chain_table_of U (learned U msgs))
   \<and> (row_successor_of U (chain_table_of U (learned U msgs)) k t
        \<longleftrightarrow> (\<exists>raw \<in> set msgs. (k, t) \<in> set (observations (tokenize U raw))))"
proof -
  have "\<forall>out. generate_markov_tokens ch max_words rng = Inr out \<longrightarrow>
      (\<exists>key \<in> keys ch. take (length key) out = key \<and>
         (\<forall>j. length key \<le> j \<and> j < length out \<longrightarrow>
              successor_of ch (last_n MARKOV_ORDER (take j out)) (out ! j)))"
  proof (intro allI impI)
    fix out
    assume "generate_markov_tokens ch max_words rng = Inr out"
    from generate_markov_tokens_seed [OF this] obtain key where
      "key \<in> keys ch" "markov_loop ch (nat max_words) (\<lambda>i. rng (Suc i)) key = Inr out"
      by blast
    with markov_loop_valid [of ch "nat max_words" "\<lambda>i. rng (Suc i)" key out]
    show "\<exists>key \<in> keys ch. take (length key) out = key \<and>
         (\<forall>j. length key \<le> j \<and> j < length out \<longrightarrow>
              successor_of ch (last_n MARKOV_ORDER (take j out)) (out ! j))"
      by blast
  qed
  moreover
  have "\<forall>out. generate_tokens U rows max_words rng = Inr out \<longrightarrow>
      (\<exists>key. get_random_key U rows (rng 0) = Inr key \<and> take (length (elems key)) out = elems key \<and>
         (\<forall>j. length (elems key) \<le> j \<and> j < length out \<longrightarrow>
              row_successor_of U rows (last_n MARKOV_ORDER (take j out)) (out ! j)))"
  proof (intro allI impI)
    fix out
    assume "generate_tokens U rows max_words rng = Inr out"
    from generate_tokens_seed [OF this] obtain key where
      "get_random_key U rows (rng 0) = Inr key"
      "text_loop U rows (nat max_words) (\<lambda>i. rng (Suc i)) (elems key) = Inr out"
      by blast
    with text_loop_valid [of U rows "nat max_words" "\<lambda>i. rng (Suc i)" "elems key" out]
    show "\<exists>key. get_random_key U rows (rng 0) = Inr key \<and> take (length (elems key)) out = elems key \<and>
         (\<forall>j. length (elems key) \<le> j \<and> j < length out \<longrightarrow>
              row_successor_of U rows (last_n MARKOV_ORDER (take j out)) (out ! j))"
      by blast
  qed
  moreover
  have "successor_of (learned U msgs) k t
        \<longleftrightarrow> (\<exists>raw \<in> set msgs. (k, t) \<in> set (observations (tokenize U raw)))"
    by (rule successor_of_learned)
  moreover
  have "build_messages U msgs [] = Inr (chain_table_of U (learned U msgs))"
    by (rule build_messages_learned)
  moreover
  have "row_successor_of U (chain_table_of U (learned U msgs)) k t
        \<longleftrightarrow> (\<exists>raw \<in> set msgs. (k, t) \<in> set (observations (tokenize U raw)))"
    by (simp only: row_successor_of_chain_table_of successor_of_learned)
  ultimately show ?thesis by (intro conjI)
qed

theorem generate_valid_witness:
  "generate_markov_tokens [([py ''a'', py ''b''], [py ''c''])] 2 (\<lambda>i. 0)
     = Inr [py ''a'', py ''b'', py ''c'']
   \<and> (\<exists>key \<in> keys [([py ''a'', py ''b''], [py ''c''])].
         take (length key) [py ''a'', py ''b'', py ''c''] = key \<and>
         (\<forall>j. length key \<le> j \<and> j < length [py ''a'', py ''b'', py ''c''] \<longrightarrow>
              successor_of [([py ''a'', py ''b''], [py ''c''])]
                (last_n MARKOV_ORDER (take j [py ''a'', py ''b'', py ''c'']))
                ([py ''a'', py ''b'', py ''c''] ! j)))"
proof -
  have h: "generate_markov_tokens [([py ''a'', py ''b''], [py ''c''])] 2 (\<lambda>i. 0)
     = Inr [py ''a'', py ''b'', py ''c'']"
    by (simp add: generate_markov_tokens_def eval_nat_numeral choice_def last_n_def
        MARKOV_ORDER_def py_def)
  from generate_valid [where ch = "[([py ''a'', py ''b''], [py ''c''])]" and max_words = 2
      and rng = "\<lambda>i. 0" and U = ascii and rows = "[]" and msgs = "[]" and k = "[]" and t = "[]"] h
  show ?thesis by blast
qed

text \<open>
  C10.  Every key of a store learned from messages has two tokens, none of them empty: the
  sentinel is in successor lists only.  So a token list that ends with the sentinel has no
  entry for its last two tokens, in the dict and in the table, and the loop of markov.py
  returns it as it is; the loop of new\_bot.py stops when it draws the sentinel.
\<close>

theorem learned_keys_without_sentinel:
  "(\<forall>k \<in> keys (learned U msgs). length k = MARKOV_ORDER \<and> [] \<notin> set k)
   \<and> (\<exists>rows. build_messages U msgs [] = Inr rows \<and>
         (\<forall>key_str \<in> fst ` set rows.
             \<exists>k. key_str = str_tuple U k \<and> length k = MARKOV_ORDER \<and> [] \<notin> set k))
   \<and> map_of (learned U msgs) (last_n MARKOV_ORDER (toks @ [[]])) = None
   \<and> markov_loop (learned U msgs) n rng (toks @ [[]]) = Inr (toks @ [[]])
   \<and> map_of (chain_table_of U (learned U msgs)) (str_tuple U (last_n MARKOV_ORDER (toks @ [[]])))
        = None
   \<and> (\<forall>out. text_loop U rows n rng seed = Inr out \<longrightarrow>
          (\<forall>j. length seed \<le> j \<and> Suc j < length out \<longrightarrow> out ! j \<noteq> []))"
proof -
  have a: "\<forall>k \<in> keys (learned U msgs). length k = MARKOV_ORDER \<and> [] \<notin> set k"
    using learned_key_tokens by blast
  have "\<forall>key_str \<in> fst ` set (chain_table_of U (learned U msgs)).
           \<exists>k. key_str = str_tuple U k \<and> length k = MARKOV_ORDER \<and> [] \<notin> set k"
  proof
    fix key_str
    assume "key_str \<in> fst ` set (chain_table_of U (learned U msgs))"
    then obtain k vs where "(k, vs) \<in> set (learned U msgs)" and ks: "key_str = str_tuple U k"
      by (auto simp: chain_table_of_def)
    then have "k \<in> keys (learned U msgs)" by (force simp: keys_def)
    with a ks show "\<exists>k. key_str = str_tuple U k \<and> length k = MARKOV_ORDER \<and> [] \<notin> set k"
      by blast
  qed
  with build_messages_learned [of U msgs]
  have b: "\<exists>rows. build_messages U msgs [] = Inr rows \<and>
         (\<forall>key_str \<in> fst ` set rows.
             \<exists>k. key_str = str_tuple U k \<and> length k = MARKOV_ORDER \<and> [] \<notin> set k)"
    by blast
  have c: "map_of (learned U msgs) (last_n MARKOV_ORDER (toks @ [[]])) = None"
    by (rule learned_sentinel_miss)
  have d: "markov_loop (learned U msgs) n rng (toks @ [[]]) = Inr (toks @ [[]])"
    by (rule markov_loop_miss [OF c])
  have e: "map_of (chain_table_of U (learned U msgs))
             (str_tuple U (last_n MARKOV_ORDER (toks @ [[]]))) = None"
    by (simp add: map_of_chain_table_of c)
  have f: "\<forall>out. text_loop U rows n rng seed = Inr out \<longrightarrow>
          (\<forall>j. length seed \<le> j \<and> Suc j < length out \<longrightarrow> out ! j \<noteq> [])"
    using text_loop_sentinel_last by blast
  from a b c d e f show ?thesis by (intro conjI)
qed

theorem learned_keys_without_sentinel_witness:
  "keys (learned ascii [py ''a b c'']) = {[py ''a'', py ''b''], [py ''b'', py ''c'']}
   \<and> [py ''a'', py ''b''] \<in> keys (learned ascii [py ''a b c''])
   \<and> length [py ''a'', py ''b''] = MARKOV_ORDER
   \<and> [] \<notin> set [py ''a'', py ''b'']
   \<and> map_of (learned ascii [py ''a b c'']) [py ''c'', []] = None"
  using learned_keys_without_sentinel [where U = ascii and msgs = "[py ''a b c'']"
      and toks = "[py ''b'', py ''c'']" and n = 0 and rng = "\<lambda>i. 0" and rows = "[]" and seed = "[]"]
  by (simp add: keys_def learned_def update_chain_def tokenize_def py_split_def ascii_def
      py_def window_def MARKOV_ORDER_def observe_def last_n_def)

text \<open>
  C1.  As stated the claim fails: on a store with no entry \<open>generate_text\<close> of new\_bot.py
  returns a string, and \<open>generate_markov_text\<close> of markov.py raises IndexError.
\<close>

theorem generate_on_empty_store_counterexample:
  "generate_text ascii [] 100 (\<lambda>i. 0) = Inr (py ''start here'')
   \<and> generate_markov_text [] 100 (\<lambda>i. 0) = Inl IndexError"
  by (simp add: generate_text_empty generate_markov_text_empty strip_start_here ascii_def)

text \<open>
  C1, amended.  On a table with no row \<open>get_random_key\<close> of new\_bot.py returns the fixed
  context \<open>("start", "here")\<close>, \<open>generate_text\<close> does not fail, its token list is that
  context and it returns \<open>"start here"\<close> stripped, which is \<open>"start here"\<close> when the letters
  \<open>s\<close> and \<open>e\<close> are not whitespace.
\<close>

theorem generate_on_empty_table:
  "get_random_key U [] r = Inr (PyTuple [py ''start'', py ''here''])
   \<and> generate_tokens U [] max_words rng = Inr [py ''start'', py ''here'']
   \<and> generate_text U [] max_words rng = Inr (strip U (py ''start here''))
   \<and> (\<not> isspace U (cp CHR ''s'') \<and> \<not> isspace U (cp CHR ''e'') \<longrightarrow>
          generate_text U [] max_words rng = Inr (py ''start here''))"
  by (simp add: get_random_key_empty generate_tokens_empty generate_text_empty strip_start_here)

theorem generate_on_empty_table_witness:
  "\<not> isspace ascii (cp CHR ''s'') \<and> \<not> isspace ascii (cp CHR ''e'')
   \<and> generate_text ascii [] 100 (\<lambda>i. 0) = Inr (py ''start here'')"
  using generate_on_empty_table [where U = ascii and max_words = 100 and rng = "\<lambda>i. 0" and r = 0]
  by (simp add: ascii_def strip_def py_def)

text \<open>
  C2.  The count of learned messages is one more after every message.  markov.py does so:
  \<open>total_messages\<close> after \<open>on_message\<close> is the value before plus one, whatever the
  handler does next.  new\_bot.py does not on the database \<open>init_db\<close> creates: the table
  \<open>stats\<close> has no row, \<open>update_stat\<close> updates no row, and \<open>get_stat\<close> reads 0 before and
  after \<open>handle_message\<close>.
\<close>

theorem total_messages_not_counted:
  "stat_rows init_db = []
   \<and> stat_rows (fst (handle_message U txt reply rng \<lparr>chain_rows = rows, stat_rows = []\<rparr>)) = []
   \<and> get_stat (py ''total_messages'')
         (stat_rows (fst (handle_message U txt reply rng \<lparr>chain_rows = rows, stat_rows = []\<rparr>)))
       = 0
   \<and> get_stat (py ''total_messages'') (stat_rows init_db) = 0
   \<and> total_messages (fst (fst (on_message U txt reply rng st))) = total_messages (fst st) + 1"
  by (simp add: handle_message_no_stats on_message_counts init_db_def) (simp add: get_stat_def)

text \<open>
  C3.  Saving and loading gives the model back: for every model whose dict has distinct
  keys (a Python dict has) \<open>load_markov_chain\<close> on the files \<open>save_markov_chain\<close> wrote
  returns that model, with the keys in their order, tokens and sentinel as they were, the
  successor lists and the two counters; in particular for every dict learned from
  messages.
\<close>

theorem save_load_round_trip:
  "(distinct (map fst (markov_chain m)) \<longrightarrow>
      load_markov_chain U (save_markov_chain U (m :: model) fs) = Inr m)
   \<and> load_markov_chain U
         (save_markov_chain U
            \<lparr>markov_chain = learned U msgs, total_messages = t, generated_messages = g\<rparr> fs)
       = Inr \<lparr>markov_chain = learned U msgs, total_messages = t, generated_messages = g\<rparr>"
  using load_save [of m U fs]
    load_save [of "\<lparr>markov_chain = learned U msgs, total_messages = t, generated_messages = g\<rparr>" U fs]
    distinct_learned [of U msgs]
  by simp

theorem save_load_round_trip_witness:
  "distinct (map fst [([py ''a'', py ''b''], [py ''c'', []]), ([py ''b'', py ''c''], [[]])])
   \<and> load_markov_chain ascii
         (save_markov_chain ascii
            \<lparr>markov_chain = [([py ''a'', py ''b''], [py ''c'', []]), ([py ''b'', py ''c''], [[]])],
              total_messages = 3, generated_messages = 1\<rparr>
            \<lparr>chain_file = None, stats_file = None\<rparr>)
       = Inr \<lparr>markov_chain = [([py ''a'', py ''b''], [py ''c'', []]), ([py ''b'', py ''c''], [[]])],
              total_messages = 3, generated_messages = 1\<rparr>"
  using save_load_round_trip [where U = ascii and msgs = "[]" and t = 0 and g = 0
      and fs = "\<lparr>chain_file = None, stats_file = None\<rparr>"
      and m = "\<lparr>markov_chain = [([py ''a'', py ''b''], [py ''c'', []]), ([py ''b'', py ''c''], [[]])],
              total_messages = 3, generated_messages = 1\<rparr>"]
  by (simp add: py_def)

text \<open>
  C6.  The statistics report the number of keys, the sum of the lengths of the successor
  lists, and their quotient, 0 on an empty store.  new\_bot.py after the message
  \<open>a b c,\<close> holds two keys with one successor each and reports the size 3 and the
  quotient 3/2: it counts the commas of the stored string.  markov.py on the same store
  reports 2 and 1, and on the empty dict raises ZeroDivisionError, where new\_bot.py on the
  empty database reports 0.
\<close>

theorem wisdom_sizes:
  "build_markov_chain ascii (py_split ascii (py ''a b c,'')) []
     = Inr (chain_table_of ascii
              [([py ''a'', py ''b''], [py ''c,'']), ([py ''b'', py ''c,''], [[]])])
   \<and> wisdom_command
        \<lparr>chain_rows = chain_table_of ascii
              [([py ''a'', py ''b''], [py ''c,'']), ([py ''b'', py ''c,''], [[]])],
         stat_rows = []\<rparr>
       = (0, 0, 2, 3, 3 / 2)
   \<and> sum_list (map (\<lambda>(key, next_words). length next_words)
         [([py ''a'', py ''b''], [py ''c,'']), ([py ''b'', py ''c,''], [[]])]) = 2
   \<and> wisdom \<lparr>markov_chain = [([py ''a'', py ''b''], [py ''c,'']), ([py ''b'', py ''c,''], [[]])],
               total_messages = 0, generated_messages = 0\<rparr>
       = Inr (0, 0, 2, 2, 1)
   \<and> wisdom \<lparr>markov_chain = [], total_messages = 0, generated_messages = 0\<rparr>
       = Inl ZeroDivisionError
   \<and> wisdom_command init_db = (0, 0, 0, 0, 0)"
proof -
  have "py_split ascii (py ''a b c,'') = [py ''a'', py ''b'', py ''c,'']"
    by (simp add: py_split_def ascii_def py_def)
  then have a: "build_markov_chain ascii (py_split ascii (py ''a b c,'')) []
     = Inr (chain_table_of ascii
              [([py ''a'', py ''b''], [py ''c,'']), ([py ''b'', py ''c,''], [[]])])"
    using build_markov_chain_refines [of ascii "[py ''a'', py ''b'', py ''c,'']" "[]"]
      chain_table_of_Nil [of ascii]
    by (simp add: update_chain_def window_def MARKOV_ORDER_def observe_def Let_def py_def)
  have b: "wisdom_command
        \<lparr>chain_rows = chain_table_of ascii
              [([py ''a'', py ''b''], [py ''c,'']), ([py ''b'', py ''c,''], [[]])],
         stat_rows = []\<rparr>
       = (0, 0, 2, 3, 3 / 2)"
    by (simp add: wisdom_command_def Let_def get_stat_def chain_table_of_def row_size_def
        str_list_def repr_def repr_quote_def repr_char_def py_def)
  have c: "wisdom \<lparr>markov_chain = [], total_messages = 0, generated_messages = 0\<rparr>
       = Inl ZeroDivisionError"
    by (simp add: wisdom_def)
  have d: "wisdom \<lparr>markov_chain = [([py ''a'', py ''b''], [py ''c,'']), ([py ''b'', py ''c,''], [[]])],
               total_messages = 0, generated_messages = 0\<rparr>
       = Inr (0, 0, 2, 2, 1)"
    by (simp add: wisdom_def)
  have e: "wisdom_command init_db = (0, 0, 0, 0, 0)"
    by (simp add: wisdom_command_def init_db_def get_stat_def)
  from a b c d e show ?thesis by simp
qed

text \<open>
  C7.  The returned string is the tokens joined by single spaces without the trailing
  sentinel and its space.  markov.py after the message \<open>a b\<close> returns \<open>a b\<close> followed by
  a space; new\_bot.py on the table of the same store returns \<open>a b\<close>.
\<close>

theorem markov_text_trailing_space:
  "generate_markov_text (learned ascii [py ''a b'']) 100 (\<lambda>i. 0) = Inr (py ''a b '')
   \<and> last (py ''a b '') = cp CHR '' ''
   \<and> generate_text ascii (chain_table_of ascii (learned ascii [py ''a b''])) 100 (\<lambda>i. 0)
       = Inr (py ''a b'')"
proof -
  have l: "learned ascii [py ''a b''] = [([py ''a'', py ''b''], [[]])]"
    by (simp add: learned_def update_chain_def tokenize_def py_split_def ascii_def py_def
        window_def MARKOV_ORDER_def observe_def)
  have "markov_loop [([py ''a'', py ''b''], [[]])] (Suc (Suc n)) (\<lambda>i. 0) [py ''a'', py ''b'']
          = Inr [py ''a'', py ''b'', []]" for n
    by (simp add: choice_def last_n_def MARKOV_ORDER_def py_def)
  from this [of 98] have "markov_loop [([py ''a'', py ''b''], [[]])] (nat 100) (\<lambda>i. 0)
          [py ''a'', py ''b''] = Inr [py ''a'', py ''b'', []]"
    by (simp add: eval_nat_numeral)
  then have m: "generate_markov_text (learned ascii [py ''a b'']) 100 (\<lambda>i. 0) = Inr (py ''a b '')
     \<and> last (py ''a b '') = cp CHR '' ''"
    by (simp add: l generate_markov_text_def generate_markov_tokens_def choice_def)
       (simp add: py_def)
  have "text_loop ascii (chain_table_of ascii [([py ''a'', py ''b''], [[]])]) (Suc n) (\<lambda>i. 0)
          [py ''a'', py ''b''] = Inr [py ''a'', py ''b'', []]" for n
    by (simp add: map_of_chain_table_of str_list_nonempty py_eval_str_list choice_def last_n_def
        MARKOV_ORDER_def)
  from this [of 99] have "text_loop ascii (chain_table_of ascii [([py ''a'', py ''b''], [[]])])
          (nat 100) (\<lambda>i. 0) [py ''a'', py ''b''] = Inr [py ''a'', py ''b'', []]"
    by (simp add: eval_nat_numeral)
  then have "generate_tokens ascii (chain_table_of ascii [([py ''a'', py ''b''], [[]])]) 100 (\<lambda>i. 0)
          = Inr [py ''a'', py ''b'', []]"
    by (simp add: generate_tokens_def get_random_key_chain_table_of)
  then have "generate_text ascii (chain_table_of ascii (learned ascii [py ''a b''])) 100 (\<lambda>i. 0)
       = Inr (py ''a b'')"
    by (simp add: l generate_text_def) (simp add: strip_def ascii_def py_def)
  with m show ?thesis by simp
qed

end
